theory Spec2Isabelle
  imports Complex_Main "HOL-Library.Char_ord" "HOL-Library.List_Lexorder"
begin

section \<open>Python values and exceptions\<close>

text \<open>
  The evaluation scripts work on values decoded from JSON (metadata lines, oracle
  responses) and on the lists and tuples built from them. A Python \<open>str\<close> is a
  sequence of code points; the model keeps the code points below 256, one \<open>char\<close>
  each. JSON booleans and JSON numbers with a fractional part are outside the value
  type: neither the metadata schema nor the answer format asked of the oracle has
  them. The IoU scores are kept as exact rationals, the float returned by Python being
  the correctly rounded quotient of the same two set sizes; printing is not modelled.
\<close>

datatype exn =
  TypeError | KeyError | IndexError | ValueError | ZeroDivisionError | ExternalError

datatype pyval =
  PNone
| PInt int
| PStr string
| PList "pyval list"
| PTuple "pyval list"
| PDict "(string \<times> pyval) list"

text \<open>Truth value of an object, as tested by \<open>not x\<close> and \<open>if x\<close>.\<close>

fun py_truthy :: "pyval \<Rightarrow> bool" where
  "py_truthy PNone = False"
| "py_truthy (PInt i) = (i \<noteq> 0)"
| "py_truthy (PStr s) = (s \<noteq> [])"
| "py_truthy (PList xs) = (xs \<noteq> [])"
| "py_truthy (PTuple xs) = (xs \<noteq> [])"
| "py_truthy (PDict kvs) = (kvs \<noteq> [])"

text \<open>Iteration (\<open>for item in v\<close>): a string yields its characters, a dict its keys.\<close>

fun py_iter :: "pyval \<Rightarrow> exn + pyval list" where
  "py_iter (PStr s) = Inr (map (\<lambda>c. PStr [c]) s)"
| "py_iter (PList xs) = Inr xs"
| "py_iter (PTuple xs) = Inr xs"
| "py_iter (PDict kvs) = Inr (map PStr (remdups (map fst kvs)))"
| "py_iter PNone = Inl TypeError"
| "py_iter (PInt i) = Inl TypeError"

text \<open>Sequence indexing \<open>xs[i]\<close>: a negative index counts from the end.\<close>

definition seq_index :: "'a list \<Rightarrow> int \<Rightarrow> exn + 'a" where
  "seq_index xs i =
     (if 0 \<le> i \<and> i < int (length xs) then Inr (xs ! nat i)
      else if - int (length xs) \<le> i \<and> i < 0 then Inr (xs ! nat (int (length xs) + i))
      else Inl IndexError)"

fun py_getitem :: "pyval \<Rightarrow> int \<Rightarrow> exn + pyval" where
  "py_getitem (PList xs) i = seq_index xs i"
| "py_getitem (PTuple xs) i = seq_index xs i"
| "py_getitem (PStr s) i = seq_index (map (\<lambda>c. PStr [c]) s) i"
| "py_getitem (PDict kvs) i = Inl KeyError"
| "py_getitem PNone i = Inl TypeError"
| "py_getitem (PInt n) i = Inl TypeError"

text \<open>Subscription with a string key, \<open>d['key']\<close>.\<close>

fun py_getkey :: "pyval \<Rightarrow> string \<Rightarrow> exn + pyval" where
  "py_getkey (PDict kvs) k = (case map_of kvs k of None \<Rightarrow> Inl KeyError | Some v \<Rightarrow> Inr v)"
| "py_getkey v k = Inl TypeError"

text \<open>Lists and dicts are unhashable; a tuple is hashable when its items are.\<close>

fun py_hashable :: "pyval \<Rightarrow> bool" where
  "py_hashable (PList xs) = False"
| "py_hashable (PDict kvs) = False"
| "py_hashable (PTuple xs) = list_all py_hashable xs"
| "py_hashable PNone = True"
| "py_hashable (PInt i) = True"
| "py_hashable (PStr s) = True"

text \<open>Sequencing: an exception raised by the first statement ends the block.\<close>

definition bind_exn :: "exn + 'a \<Rightarrow> ('a \<Rightarrow> exn + 'b) \<Rightarrow> exn + 'b" where
  "bind_exn m f = (case m of Inl e \<Rightarrow> Inl e | Inr x \<Rightarrow> f x)"

fun map_exn :: "('a \<Rightarrow> exn + 'b) \<Rightarrow> 'a list \<Rightarrow> exn + 'b list" where
  "map_exn f [] = Inr []"
| "map_exn f (x # xs) =
     bind_exn (f x) (\<lambda>y. bind_exn (map_exn f xs) (\<lambda>ys. Inr (y # ys)))"

definition py_tuple :: "pyval \<Rightarrow> exn + pyval" where
  "py_tuple v = bind_exn (py_iter v) (\<lambda>xs. Inr (PTuple xs))"

definition py_set :: "pyval list \<Rightarrow> exn + pyval set" where
  "py_set xs = (if list_all py_hashable xs then Inr (set xs) else Inl TypeError)"

fun is_list :: "pyval \<Rightarrow> bool" where
  "is_list (PList xs) = True"
| "is_list v = False"

fun is_str :: "pyval \<Rightarrow> bool" where
  "is_str (PStr s) = True"
| "is_str v = False"

section \<open>Scoring: \<open>compute_iou\<close>\<close>

text \<open>\<open>set(list1)\<close> and \<open>set(tuple(item) for item in list1)\<close>; every failure on
  these paths is a \<open>TypeError\<close> (not iterable, or unhashable).\<close>

definition set_of_items :: "pyval \<Rightarrow> exn + pyval set" where
  "set_of_items v = bind_exn (py_iter v) py_set"

definition set_of_tuples :: "pyval \<Rightarrow> exn + pyval set" where
  "set_of_tuples v =
     bind_exn (py_iter v) (\<lambda>xs. bind_exn (map_exn py_tuple xs) py_set)"

definition iou_of_sets :: "pyval set \<Rightarrow> pyval set \<Rightarrow> rat" where
  "iou_of_sets set1 set2 =
     (let intersection = card (set1 \<inter> set2); union = card (set1 \<union> set2)
      in if union > 0 then of_nat intersection / of_nat union else 0)"

definition compute_iou :: "pyval \<Rightarrow> pyval \<Rightarrow> exn + rat" where
  "compute_iou list1 list2 =
     (if \<not> py_truthy list1 \<and> \<not> py_truthy list2 then Inr 1
      else if \<not> py_truthy list1 \<or> \<not> py_truthy list2 then Inr 0
      else bind_exn (py_getitem list1 0) (\<lambda>first.
        if is_list first then
          bind_exn (set_of_tuples list1) (\<lambda>set1.
          bind_exn (set_of_tuples list2) (\<lambda>set2.
            Inr (iou_of_sets set1 set2)))
        else
          bind_exn (set_of_items list1) (\<lambda>set1.
          bind_exn (set_of_items list2) (\<lambda>set2.
            Inr (iou_of_sets set1 set2)))))"

text \<open>The spec's \<open>setIoU\<close>, written from its words over two sets.\<close>

definition setIoU_spec :: "'a set \<Rightarrow> 'a set \<Rightarrow> rat" where
  "setIoU_spec A B =
     (if A = {} \<and> B = {} then 1
      else if A = {} \<or> B = {} then 0
      else of_nat (card (A \<inter> B)) / of_nat (card (A \<union> B)))"

text \<open>Shapes of the two kinds of sequence the scoring engine is specified for.\<close>

definition all_strings :: "pyval list \<Rightarrow> bool" where
  "all_strings xs = list_all is_str xs"

fun is_str_list :: "pyval \<Rightarrow> bool" where
  "is_str_list (PList ys) = list_all is_str ys"
| "is_str_list v = False"

definition all_str_lists :: "pyval list \<Rightarrow> bool" where
  "all_str_lists xs = list_all is_str_list xs"

text \<open>What \<open>tuple(item)\<close> yields for a list and for a string (its characters).\<close>

fun tuple_of :: "pyval \<Rightarrow> pyval" where
  "tuple_of (PList ys) = PTuple ys"
| "tuple_of (PStr s) = PTuple (map (\<lambda>c. PStr [c]) s)"
| "tuple_of v = v"

section \<open>Strings, integers and paths\<close>

text \<open>\<open>str.isspace\<close>, \<open>str.strip\<close>, \<open>str.isdigit\<close> on code points below 256. The
  superscript digits (B2, B3, B9) satisfy \<open>isdigit\<close> but are rejected by \<open>int\<close>.\<close>

definition py_isspace :: "char \<Rightarrow> bool" where
  "py_isspace c = ((of_char c :: nat) \<in> {9, 10, 11, 12, 13, 28, 29, 30, 31, 32, 133, 160})"

definition py_strip :: "string \<Rightarrow> string" where
  "py_strip s = rev (dropWhile py_isspace (rev (dropWhile py_isspace s)))"

definition is_decimal :: "char \<Rightarrow> bool" where
  "is_decimal c = (48 \<le> (of_char c :: nat) \<and> (of_char c :: nat) \<le> 57)"

definition digit_value :: "char \<Rightarrow> int" where
  "digit_value c = int (of_char c) - 48"

definition py_isdigit_char :: "char \<Rightarrow> bool" where
  "py_isdigit_char c = (is_decimal c \<or> (of_char c :: nat) \<in> {178, 179, 185})"

definition py_isdigit :: "string \<Rightarrow> bool" where
  "py_isdigit s = (s \<noteq> [] \<and> list_all py_isdigit_char s)"

text \<open>\<open>int(s)\<close> in base 10: surrounding whitespace, an optional sign, then decimal
  digits, single underscores allowed between digits. The whitespace \<open>int\<close> skips is
  that of C's \<open>isspace\<close>, and the two spaces above the ASCII range, which it turns
  into blanks first; the separators \<open>1C\<close> to \<open>1F\<close>, which \<open>strip\<close> removes, are
  rejected. A string of more than 4300 digits is rejected too.\<close>

definition int_isspace :: "char \<Rightarrow> bool" where
  "int_isspace c = ((of_char c :: nat) \<in> {9, 10, 11, 12, 13, 32, 133, 160})"

definition int_max_str_digits :: nat where
  "int_max_str_digits = 4300"

fun dec_digits :: "int \<Rightarrow> string \<Rightarrow> int option" where
  "dec_digits acc [] = Some acc"
| "dec_digits acc [c] = (if is_decimal c then Some (10 * acc + digit_value c) else None)"
| "dec_digits acc (c # d # ds) =
     (if is_decimal c then dec_digits (10 * acc + digit_value c) (d # ds)
      else if c = CHR ''_'' \<and> is_decimal d then dec_digits (10 * acc + digit_value d) ds
      else None)"

definition unsigned_int :: "string \<Rightarrow> int option" where
  "unsigned_int s =
     (case s of [] \<Rightarrow> None
      | c # cs \<Rightarrow>
          if int_max_str_digits < length (filter is_decimal s) then None
          else if is_decimal c then dec_digits (digit_value c) cs else None)"

definition py_int_str :: "string \<Rightarrow> exn + int" where
  "py_int_str s =
     (let t = rev (dropWhile int_isspace (rev (dropWhile int_isspace s)));
          r = (case t of [] \<Rightarrow> None
               | c # cs \<Rightarrow> if c = CHR ''-'' then map_option uminus (unsigned_int cs)
                          else if c = CHR ''+'' then unsigned_int cs
                          else unsigned_int t)
      in case r of None \<Rightarrow> Inl ValueError | Some i \<Rightarrow> Inr i)"

fun py_int :: "pyval \<Rightarrow> exn + int" where
  "py_int (PInt i) = Inr i"
| "py_int (PStr s) = py_int_str s"
| "py_int v = Inl TypeError"

text \<open>\<open>s.split(sep)\<close> for a non-empty separator (the scripts only pass literals).\<close>

function split_from :: "string \<Rightarrow> string \<Rightarrow> string \<Rightarrow> string list" where
  "split_from sep acc [] = [rev acc]"
| "split_from sep acc (c # cs) =
     (if sep \<noteq> [] \<and> take (length sep) (c # cs) = sep
      then rev acc # split_from sep [] (drop (length sep) (c # cs))
      else split_from sep (c # acc) cs)"
  by pat_completeness auto
termination
  by (relation "measure (\<lambda>(sep, acc, s). length s)") auto

definition py_split :: "string \<Rightarrow> string \<Rightarrow> string list" where
  "py_split s sep = split_from sep [] s"

definition first_field :: "string list \<Rightarrow> string" where
  "first_field fields = (case fields of [] \<Rightarrow> [] | f # fs \<Rightarrow> f)"

definition startswith :: "string \<Rightarrow> string \<Rightarrow> bool" where
  "startswith s p = (take (length p) s = p)"

definition rfind :: "string \<Rightarrow> char \<Rightarrow> nat option" where
  "rfind s c =
     (if c \<in> set s then Some (length s - 1 - length (takeWhile (\<lambda>d. d \<noteq> c) (rev s)))
      else None)"

text \<open>\<open>os.path.basename\<close> and \<open>os.path.splitext\<close> (POSIX): the extension starts at
  the last dot of the last component, unless only dots precede it there.\<close>

definition basename :: "string \<Rightarrow> string" where
  "basename p = (case rfind p (CHR ''/'') of None \<Rightarrow> p | Some i \<Rightarrow> drop (i + 1) p)"

definition splitext :: "string \<Rightarrow> string \<times> string" where
  "splitext p =
     (case rfind p (CHR ''.'') of None \<Rightarrow> (p, [])
      | Some dotIndex \<Rightarrow>
          let filenameIndex = (case rfind p (CHR ''/'') of None \<Rightarrow> 0 | Some sepIndex \<Rightarrow> sepIndex + 1)
          in if filenameIndex \<le> dotIndex
                \<and> list_ex (\<lambda>c. c \<noteq> CHR ''.'') (take (dotIndex - filenameIndex) (drop filenameIndex p))
             then (take dotIndex p, drop dotIndex p)
             else (p, []))"

text \<open>\<open>pathlib.Path(p).name\<close> and \<open>.stem\<close>: empty and \<open>.\<close> components are dropped;
  the suffix starts at the last dot when that dot is neither first nor last.\<close>

definition path_name :: "string \<Rightarrow> string" where
  "path_name p =
     (case filter (\<lambda>part. part \<noteq> [] \<and> part \<noteq> ''.'') (py_split p ''/'') of
        [] \<Rightarrow> []
      | part # parts \<Rightarrow> last (part # parts))"

definition path_stem :: "string \<Rightarrow> string" where
  "path_stem p =
     (let name = path_name p
      in case rfind name (CHR ''.'') of None \<Rightarrow> name
         | Some i \<Rightarrow> if 0 < i \<and> i + 1 < length name then take i name else name)"

section \<open>The evaluator: \<open>sg_adapter_eval.py\<close>\<close>

text \<open>
  What the evaluator calls outside this repository is a parameter of the model:
  \<open>json.loads\<close>; the vocabulary prompt (\<open>sorted\<close> over each vocabulary set and the
  formatting of the text, which happen before the \<open>try\<close> block); and the model call
  (\<open>Image.open\<close>, \<open>generate_content\<close> and \<open>response.text\<close>, all inside it).
\<close>

record externals =
  json_loads :: "string \<Rightarrow> exn + pyval"
  make_prompt :: "pyval set \<Rightarrow> pyval set \<Rightarrow> exn + string"
  generate_content :: "string \<Rightarrow> string \<Rightarrow> exn + string"

text \<open>The two vocabulary sets of \<open>SGAdapterEvaluator\<close>.\<close>

record evaluator =
  object_list :: "pyval set"
  predicate_list :: "pyval set"

record metadata_entry =
  file_name :: pyval
  caption :: pyval
  scene_graph :: "pyval list"
  objects :: pyval
  relations :: pyval

subsection \<open>\<open>load_metadata\<close>\<close>

text \<open>The body of \<open>for rel in relations_idx\<close>: one resolved triple.\<close>

definition resolve_relation :: "pyval \<Rightarrow> pyval \<Rightarrow> exn + pyval" where
  "resolve_relation objs rel =
     (bind_exn (py_getitem rel 0) (\<lambda>s.
      bind_exn (py_int s) (\<lambda>subj_idx.
      bind_exn (py_getitem rel 1) (\<lambda>pred.
      bind_exn (py_getitem rel 2) (\<lambda>ob.
      bind_exn (py_int ob) (\<lambda>obj_idx.
      bind_exn (py_getitem objs subj_idx) (\<lambda>subj.
      bind_exn (py_getitem objs obj_idx) (\<lambda>obj.
        Inr (PList [subj, pred, obj])))))))))"

text \<open>\<open>set.update(iterable)\<close>: every item must be hashable.\<close>

definition set_update :: "pyval set \<Rightarrow> pyval list \<Rightarrow> exn + pyval set" where
  "set_update S xs = (if list_all py_hashable xs then Inr (S \<union> set xs) else Inl TypeError)"

text \<open>The body of the loop over lines, for one decoded line.\<close>

definition load_record :: "pyval \<Rightarrow> evaluator \<Rightarrow> exn + metadata_entry \<times> evaluator" where
  "load_record data ev =
     (bind_exn (py_getkey data ''objects'') (\<lambda>objs.
      bind_exn (py_getkey data ''relations'') (\<lambda>relations_idx.
      bind_exn (py_iter relations_idx) (\<lambda>rels.
      bind_exn (map_exn (resolve_relation objs) rels) (\<lambda>sg.
      bind_exn (py_getkey data ''file_name'') (\<lambda>fname.
      bind_exn (py_getkey data ''caption'') (\<lambda>cap.
      bind_exn (py_iter objs) (\<lambda>obj_items.
      bind_exn (set_update (object_list ev) obj_items) (\<lambda>object_list'.
      bind_exn (map_exn (\<lambda>rel. py_getitem rel 1) rels) (\<lambda>preds.
      bind_exn (set_update (predicate_list ev) preds) (\<lambda>predicate_list'.
        Inr (\<lparr>file_name = fname, caption = cap, scene_graph = sg,
               objects = objs, relations = relations_idx\<rparr>,
             \<lparr>object_list = object_list', predicate_list = predicate_list'\<rparr>))))))))))))"

fun load_lines ::
  "externals \<Rightarrow> string list \<Rightarrow> metadata_entry list \<Rightarrow> evaluator
     \<Rightarrow> exn + metadata_entry list \<times> evaluator" where
  "load_lines ext [] metadata_list ev = Inr (metadata_list, ev)"
| "load_lines ext (line # rest) metadata_list ev =
     (if py_strip line \<noteq> [] then
        (bind_exn (json_loads ext line) (\<lambda>data.
         bind_exn (load_record data ev) (\<lambda>(entry, ev').
           load_lines ext rest (metadata_list @ [entry]) ev')))
      else load_lines ext rest metadata_list ev)"

definition load_metadata ::
  "externals \<Rightarrow> evaluator \<Rightarrow> string list \<Rightarrow> exn + metadata_entry list \<times> evaluator" where
  "load_metadata ext ev lines = load_lines ext lines [] ev"

subsection \<open>\<open>extract_scene_graph_from_image\<close>\<close>

definition empty_prediction :: pyval where
  "empty_prediction = PDict [(''scene_graph'', PList []), (''entities'', PList [])]"

definition is_substring :: "string \<Rightarrow> string \<Rightarrow> bool" where
  "is_substring k s = list_ex (\<lambda>i. take (length k) (drop i s) = k) [0..<Suc (length s)]"

text \<open>\<open>key in v\<close> for a string key: dict keys, list items, or substring of a string.\<close>

fun py_contains :: "pyval \<Rightarrow> string \<Rightarrow> exn + bool" where
  "py_contains (PDict kvs) k = Inr (k \<in> set (map fst kvs))"
| "py_contains (PList xs) k = Inr (PStr k \<in> set xs)"
| "py_contains (PTuple xs) k = Inr (PStr k \<in> set xs)"
| "py_contains (PStr s) k = Inr (is_substring k s)"
| "py_contains PNone k = Inl TypeError"
| "py_contains (PInt i) k = Inl TypeError"

text \<open>Removal of a markdown code fence around the response text.\<close>

definition strip_code_fence :: "string \<Rightarrow> exn + string" where
  "strip_code_fence text =
     (let response_text = py_strip text in
      if startswith response_text ''```'' then
        bind_exn (seq_index (py_split response_text ''```'') 1) (\<lambda>fenced.
          Inr (py_strip (if startswith fenced ''json'' then drop 4 fenced else fenced)))
      else Inr response_text)"

text \<open>The statements of the \<open>try\<close> block after the model call; \<open>Inl\<close> is an
  exception raised there, which the \<open>except\<close> clause turns into the empty result.\<close>

definition parse_response :: "externals \<Rightarrow> string \<Rightarrow> exn + pyval" where
  "parse_response ext text =
     bind_exn (strip_code_fence text) (\<lambda>response_text.
     bind_exn (json_loads ext response_text) (\<lambda>result.
     bind_exn (py_contains result ''scene_graph'') (\<lambda>has_sg.
       if \<not> has_sg then Inl ValueError
       else bind_exn (py_contains result ''entities'') (\<lambda>has_entities.
         if \<not> has_entities then Inl ValueError else Inr result))))"

definition extract_scene_graph_from_image ::
  "externals \<Rightarrow> evaluator \<Rightarrow> string \<Rightarrow> exn + pyval" where
  "extract_scene_graph_from_image ext ev image_path =
     bind_exn (make_prompt ext (object_list ev) (predicate_list ev)) (\<lambda>prompt.
       case bind_exn (generate_content ext prompt image_path) (parse_response ext) of
         Inl e \<Rightarrow> Inr empty_prediction
       | Inr result \<Rightarrow> Inr result)"

subsection \<open>\<open>evaluate_image\<close>\<close>

record metrics =
  sg_iou :: rat
  entity_iou :: rat
  relation_iou :: rat
  predicted_sg :: pyval
  predicted_entities :: pyval

text \<open>\<open>list(set(xs))\<close>: Python leaves the order of the result open; the model lists
  the items in order of first occurrence. A set holds hashable items only, so no item
  of the result is a list and \<open>compute_iou\<close> uses nothing of it but its set.\<close>

definition list_of_set :: "pyval list \<Rightarrow> exn + pyval list" where
  "list_of_set xs = (if list_all py_hashable xs then Inr (remdups xs) else Inl TypeError)"

definition evaluate_image ::
  "externals \<Rightarrow> evaluator \<Rightarrow> string \<Rightarrow> pyval list \<Rightarrow> exn + metrics" where
  "evaluate_image ext ev image_path ground_truth_sg =
     (bind_exn (extract_scene_graph_from_image ext ev image_path) (\<lambda>extracted.
      bind_exn (py_getkey extracted ''scene_graph'') (\<lambda>pred_sg.
      bind_exn (py_getkey extracted ''entities'') (\<lambda>pred_entities.
      bind_exn (map_exn (\<lambda>sg. py_getitem sg 0) ground_truth_sg) (\<lambda>subjects.
      bind_exn (map_exn (\<lambda>sg. py_getitem sg 2) ground_truth_sg) (\<lambda>objs.
      bind_exn (list_of_set (subjects @ objs)) (\<lambda>gt_entities.
      bind_exn (map_exn (\<lambda>sg. py_getitem sg 1) ground_truth_sg) (\<lambda>gt_relations.
      bind_exn
        (if py_truthy pred_sg then
           bind_exn (py_iter pred_sg) (map_exn (\<lambda>sg. py_getitem sg 1))
         else Inr []) (\<lambda>predicted_relations.
      bind_exn (compute_iou (PList ground_truth_sg) pred_sg) (\<lambda>sg.
      bind_exn (compute_iou (PList gt_entities) pred_entities) (\<lambda>ent.
      bind_exn (compute_iou (PList gt_relations) (PList predicted_relations)) (\<lambda>rel.
        Inr \<lparr>sg_iou = sg, entity_iou = ent, relation_iou = rel,
             predicted_sg = pred_sg, predicted_entities = pred_entities\<rparr>))))))))))))"

subsection \<open>\<open>evaluate_method\<close>\<close>

record score_record = metrics +
  image :: string
  scene_index :: int
  result_caption :: pyval
  ground_truth_sg :: "pyval list"

record average_metrics =
  avg_sg_iou :: rat
  avg_entity_iou :: rat
  avg_relation_iou :: rat
  n_images :: nat

record results_data =
  average_metrics :: average_metrics
  per_image_results :: "score_record list"

text \<open>The locals of the loop over images.\<close>

record run_state =
  results :: "score_record list"
  total_sg_iou :: rat
  total_entity_iou :: rat
  total_relation_iou :: rat
  evaluated :: nat
  skipped :: nat

text \<open>The \<open>try\<close> block that derives \<open>scene_idx\<close> from the file name; \<open>None\<close> is kept
  when the first part is not all digits or \<open>int\<close> raises.\<close>

definition scene_idx_of :: "string \<Rightarrow> int option" where
  "scene_idx_of base_name =
     (let name_without_ext = fst (splitext base_name);
          first_part = first_field (py_split name_without_ext ''_'')
      in if py_isdigit first_part then
           (case py_int_str first_part of Inl e \<Rightarrow> None | Inr i \<Rightarrow> Some i)
         else None)"

definition record_result ::
  "run_state \<Rightarrow> string \<Rightarrow> int \<Rightarrow> metadata_entry \<Rightarrow> metrics \<Rightarrow> run_state" where
  "record_result st base_name scene_idx matching_meta m =
     st\<lparr>results := results st @
           [\<lparr>sg_iou = sg_iou m, entity_iou = entity_iou m, relation_iou = relation_iou m,
             predicted_sg = predicted_sg m, predicted_entities = predicted_entities m,
             image = base_name, scene_index = scene_idx,
             result_caption = caption matching_meta,
             ground_truth_sg = scene_graph matching_meta\<rparr>],
        total_sg_iou := total_sg_iou st + sg_iou m,
        total_entity_iou := total_entity_iou st + entity_iou m,
        total_relation_iou := total_relation_iou st + relation_iou m,
        evaluated := evaluated st + 1\<rparr>"

fun eval_images ::
  "externals \<Rightarrow> evaluator \<Rightarrow> metadata_entry list \<Rightarrow> string list \<Rightarrow> run_state
     \<Rightarrow> exn + run_state" where
  "eval_images ext ev metadata_list [] st = Inr st"
| "eval_images ext ev metadata_list (img_path # rest) st =
     (let base_name = basename img_path in
      case scene_idx_of base_name of
        None \<Rightarrow> eval_images ext ev metadata_list rest (st\<lparr>skipped := skipped st + 1\<rparr>)
      | Some scene_idx \<Rightarrow>
          if scene_idx < int (length metadata_list) then
            (let matching_meta = metadata_list ! nat scene_idx in
             bind_exn (evaluate_image ext ev img_path (scene_graph matching_meta)) (\<lambda>m.
               eval_images ext ev metadata_list rest
                 (record_result st base_name scene_idx matching_meta m)))
          else eval_images ext ev metadata_list rest (st\<lparr>skipped := skipped st + 1\<rparr>))"

definition initial_state :: run_state where
  "initial_state = \<lparr>results = [], total_sg_iou = 0, total_entity_iou = 0,
                     total_relation_iou = 0, evaluated = 0, skipped = 0\<rparr>"

definition method_averages :: "run_state \<Rightarrow> average_metrics" where
  "method_averages st =
     (let n = length (results st) in
      \<lparr>avg_sg_iou = (if n > 0 then total_sg_iou st / of_nat n else 0),
       avg_entity_iou = (if n > 0 then total_entity_iou st / of_nat n else 0),
       avg_relation_iou = (if n > 0 then total_relation_iou st / of_nat n else 0),
       n_images = n\<rparr>)"

text \<open>\<open>image_files\<close> is what the four \<open>glob\<close> calls found, \<open>lines\<close> the metadata file.\<close>

definition evaluate_method ::
  "externals \<Rightarrow> evaluator \<Rightarrow> string list \<Rightarrow> string list \<Rightarrow> exn + results_data" where
  "evaluate_method ext ev image_files lines =
     (bind_exn (load_metadata ext ev lines) (\<lambda>(metadata_list, ev').
      bind_exn (eval_images ext ev' metadata_list (sort image_files) initial_state) (\<lambda>st.
        Inr \<lparr>average_metrics = method_averages st, per_image_results = results st\<rparr>)))"

section \<open>Best image per scene: \<open>filter_best_images.py\<close>\<close>

definition extract_scene_index :: "string \<Rightarrow> string" where
  "extract_scene_index image_name =
     (let base_name = path_stem image_name in first_field (py_split base_name ''_''))"

abbreviation scene_key :: "score_record \<Rightarrow> string" where
  "scene_key r \<equiv> extract_scene_index (image r)"

datatype metric = SgIou | EntityIou | RelationIou

fun metric_of :: "metric \<Rightarrow> score_record \<Rightarrow> rat" where
  "metric_of SgIou r = sg_iou r"
| "metric_of EntityIou r = entity_iou r"
| "metric_of RelationIou r = relation_iou r"

fun metric_name :: "metric \<Rightarrow> string" where
  "metric_name SgIou = ''sg_iou''"
| "metric_name EntityIou = ''entity_iou''"
| "metric_name RelationIou = ''relation_iou''"

text \<open>\<open>scenes[scene_idx].append(result)\<close> on a \<open>defaultdict(list)\<close>, kept as an
  association list in insertion order.\<close>

definition scenes_get :: "(string \<times> score_record list) list \<Rightarrow> string \<Rightarrow> score_record list" where
  "scenes_get scenes k = (case map_of scenes k of None \<Rightarrow> [] | Some rs \<Rightarrow> rs)"

definition scenes_append ::
  "(string \<times> score_record list) list \<Rightarrow> score_record \<Rightarrow> (string \<times> score_record list) list" where
  "scenes_append scenes result =
     (let scene_idx = scene_key result in
      case map_of scenes scene_idx of
        None \<Rightarrow> scenes @ [(scene_idx, [result])]
      | Some rs \<Rightarrow> map (\<lambda>(k, v). if k = scene_idx then (k, v @ [result]) else (k, v)) scenes)"

definition group_by_scene :: "score_record list \<Rightarrow> (string \<times> score_record list) list" where
  "group_by_scene per_image = foldl scenes_append [] per_image"

text \<open>\<open>max(xs, key=f)\<close>: the first item whose key is maximal; \<open>ValueError\<close> on an
  empty sequence.\<close>

fun first_max :: "('a \<Rightarrow> rat) \<Rightarrow> 'a \<Rightarrow> 'a list \<Rightarrow> 'a" where
  "first_max f best [] = best"
| "first_max f best (y # ys) = first_max f (if f best < f y then y else best) ys"

definition py_max :: "('a \<Rightarrow> rat) \<Rightarrow> 'a list \<Rightarrow> exn + 'a" where
  "py_max f xs = (case xs of [] \<Rightarrow> Inl ValueError | x # rest \<Rightarrow> Inr (first_max f x rest))"

definition best_per_scene :: "metric \<Rightarrow> score_record list \<Rightarrow> exn + score_record list" where
  "best_per_scene m per_image =
     (let scenes = group_by_scene per_image in
      map_exn (\<lambda>scene_idx. py_max (metric_of m) (scenes_get scenes scene_idx))
        (sort (map fst scenes)))"

record filtered_data =
  selection_method :: string
  filtered_average_metrics :: average_metrics
  filtered_per_image_results :: "score_record list"
  original_metrics :: average_metrics

definition filter_best_per_scene :: "metric \<Rightarrow> results_data \<Rightarrow> exn + filtered_data" where
  "filter_best_per_scene m data =
     bind_exn (best_per_scene m (per_image_results data)) (\<lambda>best_results.
          let n_scenes = length best_results in
          if n_scenes = 0 then Inl ZeroDivisionError
          else Inr \<lparr>selection_method = ''best_'' @ metric_name m @ ''_per_scene'',
                    filtered_average_metrics =
                      \<lparr>avg_sg_iou = sum_list (map sg_iou best_results) / of_nat n_scenes,
                       avg_entity_iou = sum_list (map entity_iou best_results) / of_nat n_scenes,
                       avg_relation_iou = sum_list (map relation_iou best_results) / of_nat n_scenes,
                       n_images = n_scenes\<rparr>,
                    filtered_per_image_results = best_results,
                    original_metrics = average_metrics data\<rparr>)"

text \<open>A filtered result written to a file and read back as the input of a second pass.\<close>

definition as_results_data :: "filtered_data \<Rightarrow> results_data" where
  "as_results_data fd = \<lparr>average_metrics = filtered_average_metrics fd,
                          per_image_results = filtered_per_image_results fd\<rparr>"

section \<open>The spec's notions, written from its words\<close>

text \<open>Decimal digits, and the number a string of decimal digits denotes.\<close>

definition decimal_digits :: string where
  "decimal_digits = ''0123456789''"

definition digit_number :: "char \<Rightarrow> int" where
  "digit_number c = int (length (takeWhile (\<lambda>d. d \<noteq> c) decimal_digits))"

definition all_decimal :: "string \<Rightarrow> bool" where
  "all_decimal s = (s \<noteq> [] \<and> list_all (\<lambda>c. c \<in> set decimal_digits) s)"

definition decimal_number :: "string \<Rightarrow> int" where
  "decimal_number s = foldl (\<lambda>acc c. 10 * acc + digit_number c) 0 s"

text \<open>A line is blank (the spec's empty line, once read from a file with its line
  end) when it holds whitespace only.\<close>

definition whitespace_chars :: string where
  "whitespace_chars =
     [CHR 0x09, CHR 0x0A, CHR 0x0B, CHR 0x0C, CHR 0x0D, CHR 0x1C, CHR 0x1D, CHR 0x1E,
      CHR 0x1F, CHR 0x20, CHR 0x85, CHR 0xA0]"

definition blank :: "string \<Rightarrow> bool" where
  "blank line = list_all (\<lambda>c. c \<in> set whitespace_chars) line"

text \<open>
  The metadata schema: \<open>objects\<close> a list of strings, \<open>relations\<close> a list of
  \<open>[subject_index, predicate, object_index]\<close>, an index being an integer, or a string
  of decimal digits, that denotes a position in \<open>objects\<close>; and the record derived
  from such a line, with each index replaced by the object at that position.
\<close>

fun index_spec :: "nat \<Rightarrow> pyval \<Rightarrow> nat option" where
  "index_spec n (PInt i) = (if 0 \<le> i \<and> i < int n then Some (nat i) else None)"
| "index_spec n (PStr s) =
     (if all_decimal s \<and> length s \<le> 4300 \<and> decimal_number s < int n
      then Some (nat (decimal_number s)) else None)"
| "index_spec n v = None"

fun wf_relation :: "nat \<Rightarrow> pyval \<Rightarrow> bool" where
  "wf_relation n (PList [s, PStr p, ob]) = (index_spec n s \<noteq> None \<and> index_spec n ob \<noteq> None)"
| "wf_relation n v = False"

definition object_at :: "pyval list \<Rightarrow> pyval \<Rightarrow> pyval" where
  "object_at objs v = (case index_spec (length objs) v of None \<Rightarrow> PNone | Some i \<Rightarrow> objs ! i)"

fun named_triple :: "pyval list \<Rightarrow> pyval \<Rightarrow> pyval" where
  "named_triple objs (PList [s, p, ob]) = PList [object_at objs s, p, object_at objs ob]"
| "named_triple objs v = v"

fun json_field :: "pyval \<Rightarrow> string \<Rightarrow> pyval option" where
  "json_field (PDict kvs) k = map_of kvs k"
| "json_field v k = None"

fun wf_fields ::
  "pyval option \<Rightarrow> pyval option \<Rightarrow> pyval option \<Rightarrow> pyval option \<Rightarrow> bool" where
  "wf_fields (Some (PList objs)) (Some (PList rels)) (Some fname) (Some cap) =
     (list_all is_str objs \<and> list_all (wf_relation (length objs)) rels)"
| "wf_fields objs rels fname cap = False"

definition wf_record :: "pyval \<Rightarrow> bool" where
  "wf_record data =
     wf_fields (json_field data ''objects'') (json_field data ''relations'')
       (json_field data ''file_name'') (json_field data ''caption'')"

definition field_of :: "pyval \<Rightarrow> string \<Rightarrow> pyval" where
  "field_of data k = (case json_field data k of None \<Rightarrow> PNone | Some v \<Rightarrow> v)"

fun items_of :: "pyval \<Rightarrow> pyval list" where
  "items_of (PList xs) = xs"
| "items_of v = []"

definition spec_entry :: "pyval \<Rightarrow> metadata_entry" where
  "spec_entry data =
     \<lparr>file_name = field_of data ''file_name'', caption = field_of data ''caption'',
      scene_graph = map (named_triple (items_of (field_of data ''objects'')))
                      (items_of (field_of data ''relations'')),
      objects = field_of data ''objects'', relations = field_of data ''relations''\<rparr>"

definition decoded :: "externals \<Rightarrow> string \<Rightarrow> pyval" where
  "decoded ext line = (case json_loads ext line of Inl e \<Rightarrow> PNone | Inr data \<Rightarrow> data)"

definition wf_line :: "externals \<Rightarrow> string \<Rightarrow> bool" where
  "wf_line ext line = (case json_loads ext line of Inl e \<Rightarrow> False | Inr data \<Rightarrow> wf_record data)"

text \<open>The records the spec's loader returns for lines that follow the schema: one per
  line that is not blank, in line order.\<close>

definition spec_records :: "externals \<Rightarrow> string list \<Rightarrow> metadata_entry list" where
  "spec_records ext lines =
     map (\<lambda>line. spec_entry (decoded ext line)) (filter (\<lambda>line. \<not> blank line) lines)"






text \<open>The evaluator as \<open>__init__\<close> leaves it, and externals given by a decoding table
  for \<open>json.loads\<close> (any other text is rejected) and one answer of the model call.\<close>

definition new_evaluator :: evaluator where
  "new_evaluator = \<lparr>object_list = {}, predicate_list = {}\<rparr>"

definition externals_with :: "(string \<times> pyval) list \<Rightarrow> exn + string \<Rightarrow> externals" where
  "externals_with table response =
     \<lparr>json_loads = (\<lambda>s. case map_of table s of None \<Rightarrow> Inl ValueError | Some v \<Rightarrow> Inr v),
      make_prompt = (\<lambda>objs preds. Inr []),
      generate_content = (\<lambda>prompt image_path. response)\<rparr>"

definition scenario_line :: string where
  "scenario_line =
     ''{\"file_name\":\"a\",\"caption\":\"c\",\"objects\":[\"cat\",\"mat\"],\"relations\":[[0,\"on\",1]]}''"

definition scenario_data :: pyval where
  "scenario_data =
     PDict [(''file_name'', PStr ''a''), (''caption'', PStr ''c''),
            (''objects'', PList [PStr ''cat'', PStr ''mat'']),
            (''relations'', PList [PList [PInt 0, PStr ''on'', PInt 1]])]"

text \<open>A line with its line end, whose indices are given as strings.\<close>

definition string_index_line :: string where
  "string_index_line =
     ''{\"file_name\":\"b\",\"caption\":\"d\",\"objects\":[\"dog\",\"rug\"],\"relations\":[[\"1\",\"under\",\"0\"]]}''
     @ [CHR 0x0A]"

definition string_index_data :: pyval where
  "string_index_data =
     PDict [(''file_name'', PStr ''b''), (''caption'', PStr ''d''),
            (''objects'', PList [PStr ''dog'', PStr ''rug'']),
            (''relations'', PList [PList [PStr ''1'', PStr ''under'', PStr ''0'']])]"

text \<open>A metadata file as read line by line: a bare line end, the scenario line, a line
  of blanks, and a line with string indices; and the decoding of its two records.\<close>

definition sample_lines :: "string list" where
  "sample_lines =
     [[CHR 0x0A], scenario_line, [CHR 0x20, CHR 0x09, CHR 0x0A], string_index_line]"

definition sample_table :: "(string \<times> pyval) list" where
  "sample_table = [(scenario_line, scenario_data), (string_index_line, string_index_data)]"





text \<open>
  The scene identity resolver: strip the extension (the last dot and what follows it),
  take the stem up to the first underscore, and parse that segment when it consists of
  decimal digits only. An image has a matching record when its id lies in
  \<open>[0, numRecords)\<close>.
\<close>

definition strip_extension :: "string \<Rightarrow> string" where
  "strip_extension name =
     (if CHR ''.'' \<in> set name
      then rev (drop 1 (dropWhile (\<lambda>c. c \<noteq> CHR ''.'') (rev name)))
      else name)"

definition scene_id_spec :: "string \<Rightarrow> int option" where
  "scene_id_spec image_name =
     (let stem = strip_extension image_name;
          segment = takeWhile (\<lambda>c. c \<noteq> CHR ''_'') stem
      in if all_decimal segment then Some (decimal_number segment) else None)"

definition has_record :: "nat \<Rightarrow> string \<Rightarrow> bool" where
  "has_record numRecords image_name =
     (case scene_id_spec image_name of None \<Rightarrow> False
      | Some i \<Rightarrow> 0 \<le> i \<and> i < int numRecords)"

text \<open>A base name as \<open>glob\<close> returns it for a pattern \<open>*.ext\<close>: it does not start
  with a dot and holds no separator. Its length is bounded by the file system, far
  below the 4300 digits that \<open>int\<close> accepts.\<close>

definition globbed_name :: "string \<Rightarrow> bool" where
  "globbed_name name =
     (case name of [] \<Rightarrow> False
      | c # cs \<Rightarrow> c \<noteq> CHR ''.'' \<and> CHR ''/'' \<notin> set name \<and> length name \<le> 4300)"

text \<open>A triple of three strings, and its components.\<close>

fun is_triple :: "pyval \<Rightarrow> bool" where
  "is_triple (PList [PStr s, PStr p, PStr ob]) = True"
| "is_triple v = False"

fun triple_subject :: "pyval \<Rightarrow> pyval" where
  "triple_subject (PList [s, p, ob]) = s"
| "triple_subject v = v"

fun triple_predicate :: "pyval \<Rightarrow> pyval" where
  "triple_predicate (PList [s, p, ob]) = p"
| "triple_predicate v = v"

fun triple_object :: "pyval \<Rightarrow> pyval" where
  "triple_object (PList [s, p, ob]) = ob"
| "triple_object v = v"

definition sample_ground_truth :: "pyval list" where
  "sample_ground_truth =
     [PList [PStr ''cat'', PStr ''on'', PStr ''mat''],
      PList [PStr ''cat'', PStr ''near'', PStr ''dog'']]"

definition sample_answer :: pyval where
  "sample_answer =
     PDict [(''scene_graph'', PList [PList [PStr ''cat'', PStr ''on'', PStr ''mat'']]),
            (''entities'', PList [PStr ''cat'', PStr ''dog''])]"

text \<open>A response that is valid JSON but an array, not an object.\<close>

definition array_response :: string where
  "array_response = ''[\"scene_graph\", \"entities\"]''"

definition array_answer :: pyval where
  "array_answer = PList [PStr ''scene_graph'', PStr ''entities'']"

text \<open>A score record for an image, its scene index and one score for the three
  metrics, used to write down concrete inputs.\<close>

definition sample_record :: "string \<Rightarrow> int \<Rightarrow> rat \<Rightarrow> score_record" where
  "sample_record name idx score =
     \<lparr>sg_iou = score, entity_iou = score, relation_iou = score,
      predicted_sg = PList [], predicted_entities = PList [],
      image = name, scene_index = idx, result_caption = PStr [], ground_truth_sg = []\<rparr>"

definition sample_results :: results_data where
  "sample_results =
     \<lparr>average_metrics = \<lparr>avg_sg_iou = 2 / 5, avg_entity_iou = 2 / 5,
                           avg_relation_iou = 2 / 5, n_images = 3\<rparr>,
      per_image_results = [sample_record ''3_1.png'' 3 (2 / 5),
                           sample_record ''3_2.png'' 3 (7 / 10),
                           sample_record ''10.png'' 10 (1 / 10)]\<rparr>"

text \<open>The output of \<open>evaluate_method\<close> when no image was scored.\<close>

definition no_results :: results_data where
  "no_results =
     \<lparr>average_metrics = \<lparr>avg_sg_iou = 0, avg_entity_iou = 0,
                           avg_relation_iou = 0, n_images = 0\<rparr>,
      per_image_results = []\<rparr>"

section \<open>Verification\<close>

subsection \<open>Sequencing and hashing\<close>

lemma bind_exn_Inl [simp]: "bind_exn (Inl e) f = Inl e"
  by (simp add: bind_exn_def)

lemma bind_exn_Inr [simp]: "bind_exn (Inr x) f = f x"
  by (simp add: bind_exn_def)

lemma bind_exn_eq_Inr:
  "bind_exn m f = Inr y \<longleftrightarrow> (\<exists>x. m = Inr x \<and> f x = Inr y)"
  by (cases m) auto

lemma is_str_hashable: "is_str v \<Longrightarrow> py_hashable v"
  by (cases v) auto

lemma py_set_strings: "list_all is_str xs \<Longrightarrow> py_set xs = Inr (set xs)"
  by (auto simp: py_set_def list_all_iff is_str_hashable)

subsection \<open>\<open>compute_iou\<close> is the spec's \<open>setIoU\<close>\<close>

lemma iou_of_sets_spec:
  assumes "finite A" "finite B" "A \<noteq> {}" "B \<noteq> {}"
  shows "iou_of_sets A B = setIoU_spec A B"
proof -
  from assms have "0 < card (A \<union> B)" by (simp add: card_gt_0_iff)
  with assms show ?thesis by (simp add: iou_of_sets_def setIoU_spec_def)
qed

lemma card_inter_le_union: "finite (A \<union> B) \<Longrightarrow> card (A \<inter> B) \<le> card (A \<union> B)"
  by (rule card_mono) auto

lemma ratio_range:
  "0 < (u::nat) \<Longrightarrow> i \<le> u
     \<Longrightarrow> (0::rat) \<le> of_nat i / of_nat u \<and> of_nat i / of_nat u \<le> (1::rat)"
  by (simp add: divide_le_eq_1_pos)

lemma iou_of_sets_range: "0 \<le> iou_of_sets A B \<and> iou_of_sets A B \<le> 1"
proof (cases "0 < card (A \<union> B)")
  case True
  then have "card (A \<inter> B) \<le> card (A \<union> B)"
    by (intro card_inter_le_union card_ge_0_finite)
  from ratio_range [OF True this] True show ?thesis
    by (simp add: iou_of_sets_def)
next
  case False
  then show ?thesis by (simp add: iou_of_sets_def)
qed

lemma setIoU_spec_range:
  assumes "finite A" "finite B"
  shows "0 \<le> setIoU_spec A B \<and> setIoU_spec A B \<le> 1"
proof (cases "A = {} \<or> B = {}")
  case True
  then show ?thesis by (auto simp: setIoU_spec_def)
next
  case False
  from assms have fin: "finite (A \<union> B)" by simp
  with False have pos: "0 < card (A \<union> B)" by (simp add: card_gt_0_iff)
  from ratio_range [OF pos card_inter_le_union [OF fin]] False show ?thesis
    by (simp add: setIoU_spec_def)
qed

lemma map_exn_tuple_str_lists:
  "list_all is_str_list xs \<Longrightarrow> map_exn py_tuple xs = Inr (map tuple_of xs)"
proof (induction xs)
  case Nil
  then show ?case by simp
next
  case (Cons x xs)
  then show ?case by (cases x) (auto simp: py_tuple_def)
qed

lemma map_exn_tuple_strings:
  "list_all is_str xs \<Longrightarrow> map_exn py_tuple xs = Inr (map tuple_of xs)"
proof (induction xs)
  case Nil
  then show ?case by simp
next
  case (Cons x xs)
  then show ?case by (cases x) (auto simp: py_tuple_def)
qed

lemma tuple_of_str_list_hashable: "is_str_list v \<Longrightarrow> py_hashable (tuple_of v)"
  by (cases v) (auto simp: list_all_iff is_str_hashable)

lemma tuple_of_str_hashable: "is_str v \<Longrightarrow> py_hashable (tuple_of v)"
  by (cases v) (auto simp: list_all_iff)

lemma set_of_tuples_str_lists:
  "list_all is_str_list xs \<Longrightarrow> set_of_tuples (PList xs) = Inr (tuple_of ` set xs)"
  by (auto simp: set_of_tuples_def map_exn_tuple_str_lists py_set_def list_all_iff
      tuple_of_str_list_hashable)

lemma set_of_tuples_strings:
  "list_all is_str xs \<Longrightarrow> set_of_tuples (PList xs) = Inr (tuple_of ` set xs)"
  by (auto simp: set_of_tuples_def map_exn_tuple_strings py_set_def list_all_iff
      tuple_of_str_hashable)

lemma set_of_items_strings:
  "list_all is_str xs \<Longrightarrow> set_of_items (PList xs) = Inr (set xs)"
  by (simp add: set_of_items_def py_set_strings)

lemma inj_on_tuple_of_lists: "inj_on tuple_of {v. is_list v}"
proof (rule inj_onI)
  fix x y assume "x \<in> {v. is_list v}" "y \<in> {v. is_list v}" "tuple_of x = tuple_of y"
  then show "x = y" by (cases x; cases y) auto
qed

lemma is_str_list_is_list: "is_str_list v \<Longrightarrow> is_list v"
  by (cases v) auto

lemma iou_of_sets_tuple_image:
  assumes "list_all is_str_list xs" "list_all is_str_list ys"
  shows "iou_of_sets (tuple_of ` set xs) (tuple_of ` set ys) = iou_of_sets (set xs) (set ys)"
proof -
  have sub: "set xs \<union> set ys \<subseteq> {v. is_list v}"
    using assms by (auto simp: list_all_iff is_str_list_is_list)
  then have inj: "inj_on tuple_of (set xs \<union> set ys)"
    by (rule inj_on_subset [OF inj_on_tuple_of_lists])
  have "tuple_of ` set xs \<inter> tuple_of ` set ys = tuple_of ` (set xs \<inter> set ys)"
    using inj_on_image_Int [OF inj, of "set xs" "set ys"] by simp
  moreover have "tuple_of ` set xs \<union> tuple_of ` set ys = tuple_of ` (set xs \<union> set ys)"
    by (simp add: image_Un)
  moreover have "card (tuple_of ` (set xs \<inter> set ys)) = card (set xs \<inter> set ys)"
    by (rule card_image) (rule inj_on_subset [OF inj], auto)
  moreover have "card (tuple_of ` (set xs \<union> set ys)) = card (set xs \<union> set ys)"
    by (rule card_image [OF inj])
  ultimately show ?thesis by (simp add: iou_of_sets_def)
qed

lemma compute_iou_empty:
  "compute_iou (PList []) (PList []) = Inr 1"
  "b \<noteq> [] \<Longrightarrow> compute_iou (PList []) (PList b) = Inr 0"
  "a \<noteq> [] \<Longrightarrow> compute_iou (PList a) (PList []) = Inr 0"
  by (simp_all add: compute_iou_def)

lemma compute_iou_strings:
  assumes "a \<noteq> []" "b \<noteq> []" "list_all is_str a" "list_all is_str b"
  shows "compute_iou (PList a) (PList b) = Inr (iou_of_sets (set a) (set b))"
proof -
  obtain x xs where a: "a = x # xs" using assms(1) by (cases a) auto
  with assms(3) have "\<not> is_list x" by (cases x) auto
  then show ?thesis
    using assms by (simp add: compute_iou_def a seq_index_def set_of_items_strings)
qed

lemma compute_iou_str_lists:
  assumes "a \<noteq> []" "b \<noteq> []" "list_all is_str_list a" "list_all is_str_list b"
  shows "compute_iou (PList a) (PList b) = Inr (iou_of_sets (tuple_of ` set a) (tuple_of ` set b))"
proof -
  obtain x xs where a: "a = x # xs" using assms(1) by (cases a) auto
  with assms(3) have "is_list x" by (cases x) auto
  then show ?thesis
    using assms by (simp add: compute_iou_def a seq_index_def set_of_tuples_str_lists)
qed

lemma compute_iou_range: "compute_iou x y = Inr r \<Longrightarrow> 0 \<le> r \<and> r \<le> 1"
  using iou_of_sets_range
  by (auto simp: compute_iou_def bind_exn_eq_Inr split: if_splits)

lemma compute_iou_on_shapes:
  assumes "a = [] \<or> b = [] \<or> (all_strings a \<and> all_strings b)
           \<or> (all_str_lists a \<and> all_str_lists b)"
  shows "compute_iou (PList a) (PList b) = Inr (setIoU_spec (set a) (set b))"
proof (cases "a = [] \<or> b = []")
  case True
  then show ?thesis
    by (cases "a = []"; cases "b = []") (simp_all add: compute_iou_empty setIoU_spec_def)
next
  case False
  then have ne: "a \<noteq> []" "b \<noteq> []" by simp_all
  then have sne: "set a \<noteq> {}" "set b \<noteq> {}" by simp_all
  from assms False consider "all_strings a \<and> all_strings b"
    | "all_str_lists a \<and> all_str_lists b" by blast
  then show ?thesis
  proof cases
    case 1
    then show ?thesis
      using compute_iou_strings [OF ne] iou_of_sets_spec [OF _ _ sne]
      by (simp add: all_strings_def)
  next
    case 2
    then show ?thesis
      using compute_iou_str_lists [OF ne] iou_of_sets_spec [OF _ _ sne]
        iou_of_sets_tuple_image [of a b]
      by (simp add: all_str_lists_def)
  qed
qed

text \<open>
  Claim C1. On two sequences of strings, or two sequences of string lists (the triples
  as JSON decodes them), and whenever one of the two sequences is empty,
  \<open>compute_iou\<close> returns the spec's \<open>setIoU\<close> of the two sets of items: 1 when both
  are empty, 0 when exactly one is, the size of the intersection over the size of the
  union otherwise, items compared structurally; the result lies between 0 and 1.
\<close>

theorem compute_iou_setIoU:
  assumes "a = [] \<or> b = [] \<or> (all_strings a \<and> all_strings b)
           \<or> (all_str_lists a \<and> all_str_lists b)"
  shows "compute_iou (PList a) (PList b) = Inr (setIoU_spec (set a) (set b))
         \<and> 0 \<le> setIoU_spec (set a) (set b) \<and> setIoU_spec (set a) (set b) \<le> 1"
proof -
  have result: "compute_iou (PList a) (PList b) = Inr (setIoU_spec (set a) (set b))"
    using assms by (rule compute_iou_on_shapes)
  have "finite (set a)" and "finite (set b)" by simp_all
  then have "0 \<le> setIoU_spec (set a) (set b) \<and> setIoU_spec (set a) (set b) \<le> 1"
    by (rule setIoU_spec_range)
  with result show ?thesis by simp
qed

theorem compute_iou_setIoU_witness:
  "compute_iou (PList [PList [PStr ''cat'', PStr ''on'', PStr ''mat''],
                       PList [PStr ''cat'', PStr ''on'', PStr ''mat''],
                       PList [PStr ''dog'', PStr ''near'', PStr ''mat'']])
               (PList [PList [PStr ''cat'', PStr ''on'', PStr ''mat''],
                       PList [PStr ''cat'', PStr ''under'', PStr ''mat'']]) = Inr (1 / 3)"
  using compute_iou_setIoU [of
      "[PList [PStr ''cat'', PStr ''on'', PStr ''mat''],
        PList [PStr ''cat'', PStr ''on'', PStr ''mat''],
        PList [PStr ''dog'', PStr ''near'', PStr ''mat'']]"
      "[PList [PStr ''cat'', PStr ''on'', PStr ''mat''],
        PList [PStr ''cat'', PStr ''under'', PStr ''mat'']]"]
  by (simp add: all_str_lists_def setIoU_spec_def card_insert_if)

subsection \<open>Inputs of mixed shape\<close>

lemma is_list_unhashable: "is_list x \<Longrightarrow> \<not> py_hashable x"
  by (cases x) auto

lemma py_set_unhashable: "x \<in> set xs \<Longrightarrow> is_list x \<Longrightarrow> py_set xs = Inl TypeError"
  using is_list_unhashable by (auto simp: py_set_def list_all_iff)

text \<open>
  Claim C10. The branch is chosen by the first item of the first argument alone. When
  the first argument holds strings and the second holds a list, the direct set
  conversion fails with \<open>TypeError\<close> (unhashable item); when the first argument holds
  string lists and the second holds strings, both are converted with \<open>tuple\<close>, so each
  string of the second is compared, as the tuple of its characters, against the triples.
\<close>

theorem compute_iou_mixed_shapes:
  "(a \<noteq> [] \<and> all_strings a \<and> (\<exists>x \<in> set b. is_list x)
      \<longrightarrow> compute_iou (PList a) (PList b) = Inl TypeError)
   \<and> (a \<noteq> [] \<and> all_str_lists a \<and> b \<noteq> [] \<and> all_strings b
      \<longrightarrow> compute_iou (PList a) (PList b)
           = Inr (iou_of_sets (tuple_of ` set a) (tuple_of ` set b)))"
proof (intro conjI impI)
  assume h: "a \<noteq> [] \<and> all_strings a \<and> (\<exists>x \<in> set b. is_list x)"
  then obtain x xs where a: "a = x # xs" by (cases a) auto
  with h have nl: "\<not> is_list x" by (cases x) (auto simp: all_strings_def)
  from h have b: "b \<noteq> []" by auto
  from h have "py_set b = Inl TypeError" using py_set_unhashable by blast
  then show "compute_iou (PList a) (PList b) = Inl TypeError"
    using h nl b
    by (simp add: compute_iou_def a seq_index_def set_of_items_def all_strings_def
        py_set_strings)
next
  assume h: "a \<noteq> [] \<and> all_str_lists a \<and> b \<noteq> [] \<and> all_strings b"
  then obtain x xs where a: "a = x # xs" by (cases a) auto
  with h have "is_list x" by (cases x) (auto simp: all_str_lists_def)
  then show "compute_iou (PList a) (PList b)
      = Inr (iou_of_sets (tuple_of ` set a) (tuple_of ` set b))"
    using h
    by (simp add: compute_iou_def a seq_index_def all_str_lists_def all_strings_def
        set_of_tuples_str_lists set_of_tuples_strings)
qed

theorem compute_iou_mixed_shapes_witness:
  "compute_iou (PList [PStr ''cat'']) (PList [PList [PStr ''cat'', PStr ''on'', PStr ''mat'']])
     = Inl TypeError
   \<and> compute_iou (PList [PList [PStr ''c'', PStr ''a'', PStr ''t'']]) (PList [PStr ''cat''])
     = Inr 1"
  using compute_iou_mixed_shapes [of "[PStr ''cat'']"
      "[PList [PStr ''cat'', PStr ''on'', PStr ''mat'']]"]
    compute_iou_mixed_shapes [of "[PList [PStr ''c'', PStr ''a'', PStr ''t'']]" "[PStr ''cat'']"]
  by (simp add: all_strings_def all_str_lists_def iou_of_sets_def)

subsection \<open>Grouping by scene\<close>

lemma map_exn_all_Inr:
  "(\<And>x. x \<in> set xs \<Longrightarrow> f x = Inr (g x)) \<Longrightarrow> map_exn f xs = Inr (map g xs)"
  by (induction xs) simp_all

lemma scenes_update_keys:
  "map fst (map (\<lambda>(k, v). if k = k0 then (k, v @ [r]) else (k, v)) scenes) = map fst scenes"
  by (induction scenes) auto

lemma scenes_update_get:
  "map_of (map (\<lambda>(k, v). if k = k0 then (k, v @ [r]) else (k, v)) scenes) k
     = map_option (\<lambda>v. if k = k0 then v @ [r] else v) (map_of scenes k)"
  by (induction scenes) auto

lemma scenes_append_Some:
  "map_of scenes (scene_key r) = Some rs \<Longrightarrow>
     map fst (scenes_append scenes r) = map fst scenes"
proof -
  assume "map_of scenes (scene_key r) = Some rs"
  then have "scenes_append scenes r
      = map (\<lambda>(k, v). if k = scene_key r then (k, v @ [r]) else (k, v)) scenes"
    by (simp add: scenes_append_def)
  then show ?thesis by (simp only: scenes_update_keys)
qed

lemma scenes_append_None:
  "map_of scenes (scene_key r) = None \<Longrightarrow>
     scenes_append scenes r = scenes @ [(scene_key r, [r])]"
  by (simp add: scenes_append_def)

lemma scenes_append_keys:
  "set (map fst (scenes_append scenes r))
     = insert (scene_key r) (set (map fst scenes))"
proof (cases "map_of scenes (scene_key r)")
  case None
  then show ?thesis by (simp add: scenes_append_None)
next
  case (Some rs)
  then have "scene_key r \<in> set (map fst scenes)"
    by (metis map_of_eq_None_iff option.distinct(1) set_map)
  then show ?thesis unfolding scenes_append_Some [OF Some] by blast
qed

lemma scenes_append_distinct:
  assumes "distinct (map fst scenes)"
  shows "distinct (map fst (scenes_append scenes r))"
proof (cases "map_of scenes (scene_key r)")
  case None
  then have "scene_key r \<notin> set (map fst scenes)"
    by (simp add: map_of_eq_None_iff)
  with assms show ?thesis by (simp add: scenes_append_None [OF None])
next
  case (Some rs)
  with assms show ?thesis by (simp only: scenes_append_Some [OF Some])
qed

lemma scenes_append_get:
  "scenes_get (scenes_append scenes r) k
     = scenes_get scenes k @ (if scene_key r = k then [r] else [])"
proof (cases "map_of scenes (scene_key r)")
  case None
  then show ?thesis
    by (auto simp: scenes_append_def scenes_get_def Let_def map_add_def split: option.splits)
next
  case (Some rs)
  then show ?thesis
    by (auto simp: scenes_append_def scenes_get_def Let_def scenes_update_get
        split: option.splits)
qed

lemma group_fold_keys:
  "set (map fst (foldl scenes_append acc rs))
     = set (map fst acc) \<union> scene_key ` set rs"
proof (induction rs arbitrary: acc)
  case Nil
  then show ?case by simp
next
  case (Cons r rs)
  show ?case
    unfolding foldl_Cons Cons.IH scenes_append_keys by auto
qed

lemma group_fold_distinct:
  "distinct (map fst acc) \<Longrightarrow> distinct (map fst (foldl scenes_append acc rs))"
proof (induction rs arbitrary: acc)
  case Nil
  then show ?case by simp
next
  case (Cons r rs)
  from Cons.prems have "distinct (map fst (scenes_append acc r))"
    by (rule scenes_append_distinct)
  then show ?case unfolding foldl_Cons by (rule Cons.IH)
qed

lemma group_fold_get:
  "scenes_get (foldl scenes_append acc rs) k
     = scenes_get acc k @ filter (\<lambda>r. scene_key r = k) rs"
proof (induction rs arbitrary: acc)
  case Nil
  then show ?case by simp
next
  case (Cons r rs)
  show ?case
    unfolding foldl_Cons Cons.IH scenes_append_get by simp
qed

lemma group_by_scene_keys:
  "set (map fst (group_by_scene rs)) = scene_key ` set rs"
  using group_fold_keys [of "[]" rs] by (simp add: group_by_scene_def)

lemma group_by_scene_distinct: "distinct (map fst (group_by_scene rs))"
  using group_fold_distinct [of "[]" rs] by (simp add: group_by_scene_def)

lemma group_by_scene_get:
  "scenes_get (group_by_scene rs) k = filter (\<lambda>r. scene_key r = k) rs"
  using group_fold_get [of "[]" rs k] by (simp add: group_by_scene_def scenes_get_def)

subsection \<open>The first maximum\<close>

lemma first_max_in: "first_max f x ys \<in> set (x # ys)"
  by (induction ys arbitrary: x) auto

lemma first_max_ge: "z \<in> set (x # ys) \<Longrightarrow> f z \<le> f (first_max f x ys)"
proof (induction ys arbitrary: x z)
  case Nil
  then show ?case by simp
next
  case (Cons y ys)
  let ?b = "if f x < f y then y else x"
  have top: "f ?b \<le> f (first_max f ?b ys)"
    using Cons.IH [where x = ?b and z = ?b] by simp
  have "f x \<le> f ?b" and "f y \<le> f ?b" by simp_all
  with top have start: "f x \<le> f (first_max f ?b ys)" and other: "f y \<le> f (first_max f ?b ys)"
    by (blast intro: order_trans)+
  from Cons.prems consider "z = x" | "z = y" | "z \<in> set ys" by auto
  then show ?case
  proof cases
    case 1
    with start show ?thesis by simp
  next
    case 2
    with other show ?thesis by simp
  next
    case 3
    then have "f z \<le> f (first_max f ?b ys)"
      using Cons.IH [where x = ?b and z = z] by simp
    then show ?thesis by simp
  qed
qed

lemma first_max_key:
  "\<forall>z \<in> set (x # ys). scene_key z = k \<Longrightarrow> scene_key (first_max f x ys) = k"
  using first_max_in [of f x ys] by blast

subsection \<open>One pass of the selection\<close>

lemma map_exn_rel:
  "(\<And>x. x \<in> set xs \<Longrightarrow> \<exists>y. f x = Inr y \<and> P x y)
     \<Longrightarrow> \<exists>ys. map_exn f xs = Inr ys \<and> list_all2 P xs ys"
proof (induction xs)
  case Nil
  then show ?case by simp
next
  case (Cons x xs)
  from Cons.prems obtain y where y: "f x = Inr y" "P x y" by auto
  from Cons.IH Cons.prems obtain ys where ys: "map_exn f xs = Inr ys" "list_all2 P xs ys"
    by auto
  from y ys show ?case by simp
qed

lemma map_exn_map_id:
  "(\<And>x. x \<in> set xs \<Longrightarrow> h (g x) = Inr x) \<Longrightarrow> map_exn h (map g xs) = Inr xs"
  by (induction xs) simp_all

lemma filter_key_singleton:
  "distinct (map g xs) \<Longrightarrow> x \<in> set xs \<Longrightarrow> filter (\<lambda>z. g z = g x) xs = [x]"
proof (induction xs)
  case Nil
  then show ?case by simp
next
  case (Cons a xs)
  from Cons.prems(1) have "g a \<notin> g ` set xs" and dist: "distinct (map g xs)"
    by simp_all
  then have notin: "\<forall>z \<in> set xs. g z \<noteq> g a"
    by (metis imageI)
  show ?case
  proof (cases "x = a")
    case True
    from notin have "filter (\<lambda>z. g z = g a) xs = []"
      by (auto simp: filter_empty_conv)
    with True show ?thesis by simp
  next
    case False
    with Cons.prems(2) have x: "x \<in> set xs" by simp
    with notin have "g a \<noteq> g x" by auto
    with Cons.IH [OF dist x] show ?thesis by simp
  qed
qed

lemma keys_of_related:
  "list_all2 (\<lambda>k r. g r = k) ks out \<Longrightarrow> map g out = ks"
  by (induction rule: list_all2_induct) simp_all

text \<open>
  The selection loop (lines 37--56) never raises: for each key of the grouping, in
  sorted order, it returns the first record of maximal metric among the records with
  that key.
\<close>

lemma best_per_scene_groups:
  "\<exists>out. best_per_scene m rs = Inr out
     \<and> list_all2
          (\<lambda>k r. \<exists>x rest. filter (\<lambda>z. scene_key z = k) rs = x # rest
                          \<and> r = first_max (metric_of m) x rest)
          (sort (map fst (group_by_scene rs))) out"
  unfolding best_per_scene_def Let_def
proof (rule map_exn_rel)
  fix k assume "k \<in> set (sort (map fst (group_by_scene rs)))"
  then have "k \<in> scene_key ` set rs"
    using group_by_scene_keys [of rs] by simp
  then have "filter (\<lambda>z. scene_key z = k) rs \<noteq> []"
    by (auto simp: filter_empty_conv)
  then obtain x rest where xr: "filter (\<lambda>z. scene_key z = k) rs = x # rest"
    by (cases "filter (\<lambda>z. scene_key z = k) rs") auto
  then have "py_max (metric_of m) (scenes_get (group_by_scene rs) k)
      = Inr (first_max (metric_of m) x rest)"
    by (simp add: group_by_scene_get py_max_def)
  with xr show "\<exists>y. py_max (metric_of m) (scenes_get (group_by_scene rs) k) = Inr y
      \<and> (\<exists>x rest. filter (\<lambda>z. scene_key z = k) rs = x # rest
            \<and> y = first_max (metric_of m) x rest)"
    by blast
qed

lemma best_per_scene_keys:
  assumes "best_per_scene m rs = Inr out"
  shows "map scene_key out = sort (map fst (group_by_scene rs))"
proof -
  from best_per_scene_groups [of m rs] assms
  have rel: "list_all2
      (\<lambda>k r. \<exists>x rest. filter (\<lambda>z. scene_key z = k) rs = x # rest
                      \<and> r = first_max (metric_of m) x rest)
      (sort (map fst (group_by_scene rs))) out"
    by auto
  have "list_all2 (\<lambda>k r. scene_key r = k) (sort (map fst (group_by_scene rs))) out"
  proof (rule list_all2_mono [OF rel])
    fix k r
    assume "\<exists>x rest. filter (\<lambda>z. scene_key z = k) rs = x # rest
        \<and> r = first_max (metric_of m) x rest"
    then obtain x rest where xr: "filter (\<lambda>z. scene_key z = k) rs = x # rest"
      and r: "r = first_max (metric_of m) x rest" by blast
    have "\<forall>z \<in> set (x # rest). scene_key z = k"
      unfolding xr [symmetric] by simp
    then show "scene_key r = k" unfolding r by (rule first_max_key)
  qed
  then show ?thesis by (rule keys_of_related)
qed

lemma best_per_scene_sorted_distinct:
  assumes "best_per_scene m rs = Inr out"
  shows "sorted (map scene_key out) \<and> distinct (map scene_key out)
         \<and> set (map scene_key out) = scene_key ` set rs"
  unfolding best_per_scene_keys [OF assms]
  using group_by_scene_distinct [of rs] group_by_scene_keys [of rs] by simp

lemma best_per_scene_empty_iff:
  assumes "best_per_scene m rs = Inr out"
  shows "out = [] \<longleftrightarrow> rs = []"
proof -
  from best_per_scene_sorted_distinct [OF assms]
  have "set (map scene_key out) = scene_key ` set rs" by simp
  then have "set out = {} \<longleftrightarrow> set rs = {}"
    by (metis image_is_empty set_map)
  then show ?thesis by simp
qed

lemma best_per_scene_again:
  assumes "best_per_scene m rs = Inr out"
  shows "best_per_scene m out = Inr out"
proof -
  from best_per_scene_sorted_distinct [OF assms]
  have srt: "sorted (map scene_key out)" and dst: "distinct (map scene_key out)" by simp_all
  have "set (sort (map fst (group_by_scene out))) = set (map scene_key out)"
    using group_by_scene_keys [of out] by simp
  moreover have "distinct (sort (map fst (group_by_scene out)))"
    using group_by_scene_distinct [of out] by simp
  moreover have "sorted (sort (map fst (group_by_scene out)))" by simp
  ultimately have keys: "sort (map fst (group_by_scene out)) = map scene_key out"
    using srt dst by (intro sorted_distinct_set_unique)
  have "map_exn (\<lambda>k. py_max (metric_of m) (scenes_get (group_by_scene out) k))
          (map scene_key out) = Inr out"
  proof (rule map_exn_map_id)
    fix r assume "r \<in> set out"
    with dst have "filter (\<lambda>z. scene_key z = scene_key r) out = [r]"
      by (rule filter_key_singleton)
    then show "py_max (metric_of m) (scenes_get (group_by_scene out) (scene_key r)) = Inr r"
      by (simp add: group_by_scene_get py_max_def)
  qed
  then show ?thesis by (simp add: best_per_scene_def keys)
qed

text \<open>
  Whenever a pass of \<open>filter_best_per_scene\<close> returns (it does for every non-empty
  list of records), a second pass with the same metric on its output returns the same
  records in the same order, and the same averages.
\<close>

lemma filter_best_per_scene_twice:
  "(per_image_results data \<noteq> [] \<longrightarrow> (\<exists>out. filter_best_per_scene m data = Inr out))
   \<and> (\<forall>out. filter_best_per_scene m data = Inr out \<longrightarrow>
         (\<exists>out'. filter_best_per_scene m (as_results_data out) = Inr out'
            \<and> filtered_per_image_results out' = filtered_per_image_results out
            \<and> filtered_average_metrics out' = filtered_average_metrics out))"
proof (intro conjI impI allI)
  assume ne: "per_image_results data \<noteq> []"
  from best_per_scene_groups [of m "per_image_results data"]
  obtain best where best: "best_per_scene m (per_image_results data) = Inr best" by blast
  with ne have "best \<noteq> []" by (simp add: best_per_scene_empty_iff)
  with best show "\<exists>out. filter_best_per_scene m data = Inr out"
    by (simp add: filter_best_per_scene_def Let_def)
next
  fix out assume run: "filter_best_per_scene m data = Inr out"
  then obtain best where best: "best_per_scene m (per_image_results data) = Inr best"
    and ne: "best \<noteq> []" and out: "filtered_per_image_results out = best"
    by (auto simp: filter_best_per_scene_def Let_def bind_exn_eq_Inr split: if_splits)
  from run best ne have avg: "filtered_average_metrics out =
      \<lparr>avg_sg_iou = sum_list (map sg_iou best) / of_nat (length best),
       avg_entity_iou = sum_list (map entity_iou best) / of_nat (length best),
       avg_relation_iou = sum_list (map relation_iou best) / of_nat (length best),
       n_images = length best\<rparr>"
    by (auto simp: filter_best_per_scene_def Let_def)
  from best have again: "best_per_scene m best = Inr best" by (rule best_per_scene_again)
  with ne out avg
  show "\<exists>out'. filter_best_per_scene m (as_results_data out) = Inr out'
      \<and> filtered_per_image_results out' = filtered_per_image_results out
      \<and> filtered_average_metrics out' = filtered_average_metrics out"
    by (simp add: filter_best_per_scene_def as_results_data_def Let_def)
qed

text \<open>
  Claim C9 on the code. On a results file without records the selection loop returns
  the empty list, which a second pass would leave as it is; but the function then
  divides by the number of scenes and raises \<open>ZeroDivisionError\<close> (the division
  has no guard), so the first pass has no output and there is nothing for a
  second pass to return.
\<close>

theorem filter_best_per_scene_twice_no_records:
  "best_per_scene m [] = Inr []
   \<and> filter_best_per_scene m \<lparr>average_metrics = avg, per_image_results = []\<rparr>
       = Inl ZeroDivisionError"
proof -
  have loop: "best_per_scene m [] = Inr []"
    by (simp add: best_per_scene_def group_by_scene_def)
  then have "filter_best_per_scene m \<lparr>average_metrics = avg, per_image_results = []\<rparr>
      = Inl ZeroDivisionError"
    by (simp add: filter_best_per_scene_def)
  with loop show ?thesis by simp
qed

subsection \<open>Which record of a scene is kept\<close>

lemma first_max_first:
  "\<exists>pre post. x # ys = pre @ first_max f x ys # post
      \<and> (\<forall>z \<in> set pre. f z < f (first_max f x ys))"
proof (induction ys arbitrary: x)
  case Nil
  have "[x] = [] @ x # [] \<and> (\<forall>z \<in> set []. f z < f x)" by simp
  then show ?case unfolding first_max.simps by blast
next
  case (Cons y ys)
  define b where "b = (if f x < f y then y else x)"
  define r where "r = first_max f b ys"
  have r: "first_max f x (y # ys) = r" by (simp add: r_def b_def)
  from Cons.IH [of b] obtain pre post
    where split: "b # ys = pre @ r # post" and less: "\<forall>z \<in> set pre. f z < f r"
    unfolding r_def by blast
  have ge: "f b \<le> f r" unfolding r_def by (rule first_max_ge) simp
  have goal: "\<exists>pre post. x # y # ys = pre @ r # post \<and> (\<forall>z \<in> set pre. f z < f r)"
  proof (cases "f x < f y")
    case True
    then have b: "b = y" by (simp add: b_def)
    from True ge b have "f x < f r" by simp
    moreover from split b have "x # y # ys = (x # pre) @ r # post" by simp
    ultimately have "x # y # ys = (x # pre) @ r # post \<and> (\<forall>z \<in> set (x # pre). f z < f r)"
      using less by simp
    then show ?thesis by blast
  next
    case False
    then have b: "b = x" by (simp add: b_def)
    show ?thesis
    proof (cases pre)
      case Nil
      with split b have "x = r" by simp
      then have "x # y # ys = [] @ r # (y # ys) \<and> (\<forall>z \<in> set []. f z < f r)" by simp
      then show ?thesis by blast
    next
      case (Cons p pre')
      with split b have p: "p = x" and ys: "ys = pre' @ r # post" by simp_all
      from less Cons p have "f x < f r" by simp
      with False have "f y < f r" by simp
      moreover from ys have "x # y # ys = (x # y # pre') @ r # post" by simp
      ultimately have "x # y # ys = (x # y # pre') @ r # post
          \<and> (\<forall>z \<in> set (x # y # pre'). f z < f r)"
        using less Cons p by simp
      then show ?thesis by blast
    qed
  qed
  then show ?case unfolding r .
qed

text \<open>
  What the selection loop guarantees, in terms of the key it groups by (the text of
  the file name before the first underscore): the keys of the output are the distinct
  keys of the input in ascending order, and each record kept is an input record of
  maximal metric among those with its key.
\<close>

lemma best_per_scene_selects:
  assumes "best_per_scene m rs = Inr out"
  shows "length out = card (scene_key ` set rs) \<and> length out \<le> length rs
         \<and> (\<forall>r \<in> set out. r \<in> set rs
               \<and> (\<forall>z \<in> set rs. scene_key z = scene_key r \<longrightarrow> metric_of m z \<le> metric_of m r))"
proof -
  from best_per_scene_sorted_distinct [OF assms]
  have dst: "distinct (map scene_key out)"
    and keys: "set (map scene_key out) = scene_key ` set rs" by simp_all
  from dst have "card (set (map scene_key out)) = length (map scene_key out)"
    by (rule distinct_card)
  with keys have len: "length out = card (scene_key ` set rs)" by simp
  have "card (scene_key ` set rs) \<le> card (set rs)" by (rule card_image_le) simp
  also have "\<dots> \<le> length rs" by (rule card_length)
  finally have le: "length out \<le> length rs" using len by simp
  from best_per_scene_groups [of m rs] assms
  have rel: "list_all2
      (\<lambda>k r. \<exists>x rest. filter (\<lambda>z. scene_key z = k) rs = x # rest
                      \<and> r = first_max (metric_of m) x rest)
      (sort (map fst (group_by_scene rs))) out"
    by auto
  have sel: "r \<in> set rs
      \<and> (\<forall>z \<in> set rs. scene_key z = scene_key r \<longrightarrow> metric_of m z \<le> metric_of m r)"
    if "r \<in> set out" for r
  proof -
    from that rel obtain k x rest
      where xr: "filter (\<lambda>z. scene_key z = k) rs = x # rest"
        and r: "r = first_max (metric_of m) x rest"
      by (auto simp: list_all2_conv_all_nth in_set_conv_nth)
    have mem: "r \<in> set (filter (\<lambda>z. scene_key z = k) rs)"
      unfolding xr r by (rule first_max_in)
    then have key: "scene_key r = k" and inrs: "r \<in> set rs" by simp_all
    have "metric_of m z \<le> metric_of m r" if "z \<in> set rs" "scene_key z = scene_key r" for z
    proof -
      from that key have "z \<in> set (filter (\<lambda>z. scene_key z = k) rs)" by simp
      then have "z \<in> set (x # rest)" unfolding xr .
      then show ?thesis unfolding r by (rule first_max_ge)
    qed
    with inrs show ?thesis by blast
  qed
  from len le sel show ?thesis by blast
qed

text \<open>
  Claim C2 on the code. \<open>evaluate_method\<close> resolves both \<open>0.png\<close> and \<open>000.png\<close>
  to scene id 0, but the selection groups by the text before the first underscore, so
  the two records fall into the groups \<open>0\<close> and \<open>000\<close> and both are kept: two records
  for one scene id.
\<close>

theorem best_per_scene_keeps_two_for_scene_0:
  "scene_idx_of ''0.png'' = Some 0 \<and> scene_idx_of ''000.png'' = Some 0
   \<and> best_per_scene SgIou [sample_record ''0.png'' 0 (2 / 5), sample_record ''000.png'' 0 (7 / 10)]
       = Inr [sample_record ''0.png'' 0 (2 / 5), sample_record ''000.png'' 0 (7 / 10)]"
proof -
  have "scene_idx_of ''0.png'' = Some 0" "scene_idx_of ''000.png'' = Some 0"
    by (simp_all add: scene_idx_of_def splitext_def rfind_def py_split_def first_field_def
        py_isdigit_def py_isdigit_char_def is_decimal_def py_int_str_def int_isspace_def
        int_max_str_digits_def unsigned_int_def digit_value_def)
  moreover have "best_per_scene SgIou
      [sample_record ''0.png'' 0 (2 / 5), sample_record ''000.png'' 0 (7 / 10)]
    = Inr [sample_record ''0.png'' 0 (2 / 5), sample_record ''000.png'' 0 (7 / 10)]"
    by (simp add: best_per_scene_def group_by_scene_def scenes_append_def scenes_get_def
        py_max_def sample_record_def extract_scene_index_def path_stem_def path_name_def
        py_split_def rfind_def first_field_def)
  ultimately show ?thesis by simp
qed

subsection \<open>Averages\<close>

lemma eval_images_totals:
  assumes "eval_images ext ev md imgs st = Inr st'"
    and "total_sg_iou st = sum_list (map sg_iou (results st))
         \<and> total_entity_iou st = sum_list (map entity_iou (results st))
         \<and> total_relation_iou st = sum_list (map relation_iou (results st))"
  shows "total_sg_iou st' = sum_list (map sg_iou (results st'))
         \<and> total_entity_iou st' = sum_list (map entity_iou (results st'))
         \<and> total_relation_iou st' = sum_list (map relation_iou (results st'))"
  using assms
proof (induction imgs arbitrary: st)
  case Nil
  then show ?case by simp
next
  case (Cons p ps)
  show ?case
  proof (cases "scene_idx_of (basename p)")
    case None
    with Cons.prems(1) have "eval_images ext ev md ps (st\<lparr>skipped := skipped st + 1\<rparr>) = Inr st'"
      by simp
    then show ?thesis by (rule Cons.IH) (use Cons.prems(2) in simp)
  next
    case (Some i)
    show ?thesis
    proof (cases "i < int (length md)")
      case False
      with Some Cons.prems(1)
      have "eval_images ext ev md ps (st\<lparr>skipped := skipped st + 1\<rparr>) = Inr st'"
        by simp
      then show ?thesis by (rule Cons.IH) (use Cons.prems(2) in simp)
    next
      case True
      with Some Cons.prems(1) obtain mt
        where "eval_images ext ev md ps (record_result st (basename p) i (md ! nat i) mt) = Inr st'"
        by (auto simp: Let_def bind_exn_eq_Inr)
      then show ?thesis
        by (rule Cons.IH) (use Cons.prems(2) in \<open>simp add: record_result_def\<close>)
    qed
  qed
qed

text \<open>\<open>evaluate_method\<close> reports the arithmetic mean of each metric over the records
  it produced, and zero when it produced none.\<close>

lemma evaluate_method_mean:
  assumes "evaluate_method ext ev image_files lines = Inr d"
  shows "average_metrics d =
     (let rs = per_image_results d; n = length rs in
      \<lparr>avg_sg_iou = (if n > 0 then sum_list (map sg_iou rs) / of_nat n else 0),
       avg_entity_iou = (if n > 0 then sum_list (map entity_iou rs) / of_nat n else 0),
       avg_relation_iou = (if n > 0 then sum_list (map relation_iou rs) / of_nat n else 0),
       n_images = n\<rparr>)"
proof -
  from assms obtain md ev' st
    where run: "eval_images ext ev' md (sort image_files) initial_state = Inr st"
      and d: "d = \<lparr>average_metrics = method_averages st, per_image_results = results st\<rparr>"
    by (auto simp: evaluate_method_def bind_exn_eq_Inr)
  from run have "total_sg_iou st = sum_list (map sg_iou (results st))
       \<and> total_entity_iou st = sum_list (map entity_iou (results st))
       \<and> total_relation_iou st = sum_list (map relation_iou (results st))"
    by (rule eval_images_totals) (simp add: initial_state_def)
  then show ?thesis by (simp add: d method_averages_def Let_def)
qed

text \<open>
  Claim C6 on the code. With no image scored, \<open>evaluate_method\<close> guards the division
  and reports zero averages; \<open>filter_best_per_scene\<close> on that very output divides by
  the number of scenes, which is zero, and raises \<open>ZeroDivisionError\<close>.
\<close>

theorem filter_best_per_scene_no_records:
  "evaluate_method ext ev [] [] = Inr no_results
   \<and> filter_best_per_scene m no_results = Inl ZeroDivisionError"
  by (simp add: evaluate_method_def load_metadata_def initial_state_def method_averages_def
      no_results_def filter_best_per_scene_def best_per_scene_def group_by_scene_def)

subsection \<open>Characters and integers\<close>

lemma of_char_eq_char: "(of_char c :: nat) = of_char d \<longleftrightarrow> c = d"
  by (metis char_of_char)

lemma py_isspace_chars: "py_isspace c \<longleftrightarrow> c \<in> set whitespace_chars"
proof -
  have e: "(of_char c :: nat) = of_char d \<longleftrightarrow> c = d" for d by (rule of_char_eq_char)
  show ?thesis
    unfolding py_isspace_def whitespace_chars_def
    using e [of "CHR 0x09"] e [of "CHR 0x0A"] e [of "CHR 0x0B"] e [of "CHR 0x0C"]
      e [of "CHR 0x0D"] e [of "CHR 0x1C"] e [of "CHR 0x1D"] e [of "CHR 0x1E"]
      e [of "CHR 0x1F"] e [of "CHR 0x20"] e [of "CHR 0x85"] e [of "CHR 0xA0"]
    by simp
qed

lemma is_decimal_chars: "is_decimal c \<longleftrightarrow> c \<in> set decimal_digits"
proof -
  have e: "(of_char c :: nat) = of_char d \<longleftrightarrow> c = d" for d by (rule of_char_eq_char)
  have "is_decimal c \<longleftrightarrow> (of_char c :: nat) \<in> {48, 49, 50, 51, 52, 53, 54, 55, 56, 57}"
    unfolding is_decimal_def by (simp, arith)
  also have "\<dots> \<longleftrightarrow> c \<in> set decimal_digits"
    unfolding decimal_digits_def
    using e [of "CHR ''0''"] e [of "CHR ''1''"] e [of "CHR ''2''"] e [of "CHR ''3''"]
      e [of "CHR ''4''"] e [of "CHR ''5''"] e [of "CHR ''6''"] e [of "CHR ''7''"]
      e [of "CHR ''8''"] e [of "CHR ''9''"]
    by simp
  finally show ?thesis .
qed

lemma digit_value_number:
  assumes "c \<in> set decimal_digits"
  shows "digit_value c = digit_number c"
proof -
  from assms consider "c = CHR ''0''" | "c = CHR ''1''" | "c = CHR ''2''" | "c = CHR ''3''"
    | "c = CHR ''4''" | "c = CHR ''5''" | "c = CHR ''6''" | "c = CHR ''7''" | "c = CHR ''8''"
    | "c = CHR ''9''"
    by (auto simp: decimal_digits_def)
  then show ?thesis
    by cases (simp_all add: digit_value_def digit_number_def decimal_digits_def)
qed

lemma all_decimal_code: "all_decimal s \<longleftrightarrow> s \<noteq> [] \<and> list_all is_decimal s"
  by (simp add: all_decimal_def list_all_iff is_decimal_chars)

lemma decimal_fold_number:
  "list_all is_decimal s \<Longrightarrow>
     foldl (\<lambda>a c. 10 * a + digit_value c) acc s = foldl (\<lambda>a c. 10 * a + digit_number c) acc s"
proof (induction s arbitrary: acc)
  case Nil
  then show ?case by simp
next
  case (Cons c s)
  from Cons.prems have "digit_value c = digit_number c"
    by (simp add: is_decimal_chars digit_value_number)
  with Cons show ?case by simp
qed

lemma is_decimal_isdigit: "is_decimal c \<Longrightarrow> py_isdigit_char c"
  by (simp add: py_isdigit_char_def)

lemma isdigit_not_space: "py_isdigit_char c \<Longrightarrow> \<not> int_isspace c"
  by (auto simp: py_isdigit_char_def is_decimal_def int_isspace_def)

lemma isdigit_not_sign:
  "py_isdigit_char c \<Longrightarrow> c \<noteq> CHR ''-'' \<and> c \<noteq> CHR ''+'' \<and> c \<noteq> CHR ''_''"
  by (auto simp: py_isdigit_char_def is_decimal_def)

lemma dropWhile_none: "list_all (\<lambda>c. \<not> P c) s \<Longrightarrow> dropWhile P s = s"
  by (cases s) simp_all

lemma int_strip_digits:
  assumes "list_all py_isdigit_char s"
  shows "rev (dropWhile int_isspace (rev (dropWhile int_isspace s))) = s"
proof -
  from assms have ns: "list_all (\<lambda>c. \<not> int_isspace c) s"
    by (auto simp: list_all_iff isdigit_not_space)
  then have "list_all (\<lambda>c. \<not> int_isspace c) (rev s)" by (simp add: list_all_iff)
  then have "dropWhile int_isspace (rev s) = rev s" by (rule dropWhile_none)
  moreover from ns have "dropWhile int_isspace s = s" by (rule dropWhile_none)
  ultimately show ?thesis by simp
qed

lemma dec_digits_digits:
  "list_all py_isdigit_char cs \<Longrightarrow>
     dec_digits acc cs =
       (if list_all is_decimal cs
        then Some (foldl (\<lambda>a c. 10 * a + digit_value c) acc cs) else None)"
proof (induction acc cs rule: dec_digits.induct)
  case (1 acc)
  then show ?case by simp
next
  case (2 acc c)
  then show ?case by simp
next
  case (3 acc c d ds)
  from "3.prems" have c: "c \<noteq> CHR ''_''" and rest: "list_all py_isdigit_char (d # ds)"
    using isdigit_not_sign [of c] by simp_all
  show ?case
  proof (cases "is_decimal c")
    case True
    with "3.IH"(1) [OF True rest] show ?thesis by simp
  next
    case False
    with c show ?thesis by simp
  qed
qed

lemma py_int_str_digits:
  assumes "s \<noteq> []" "list_all py_isdigit_char s" "length s \<le> 4300"
  shows "py_int_str s =
     (if list_all is_decimal s then Inr (foldl (\<lambda>a c. 10 * a + digit_value c) 0 s)
      else Inl ValueError)"
proof -
  from assms(1) obtain c cs where s: "s = c # cs" by (cases s) auto
  with assms(2) have c: "py_isdigit_char c" and cs: "list_all py_isdigit_char cs"
    by simp_all
  from isdigit_not_sign [OF c] have sign: "c \<noteq> CHR ''-''" "c \<noteq> CHR ''+''" by simp_all
  have strip: "rev (dropWhile int_isspace (rev (dropWhile int_isspace (c # cs)))) = c # cs"
    using int_strip_digits [OF assms(2)] by (simp only: s)
  have "length (filter is_decimal (c # cs)) \<le> length (c # cs)" by (rule length_filter_le)
  with assms(3) have few: "\<not> int_max_str_digits < length (filter is_decimal (c # cs))"
    by (simp add: int_max_str_digits_def s)
  have "unsigned_int (c # cs)
      = (if list_all is_decimal (c # cs)
         then Some (foldl (\<lambda>a c. 10 * a + digit_value c) 0 (c # cs)) else None)"
    unfolding unsigned_int_def list.case if_not_P [OF few]
    by (simp add: dec_digits_digits [OF cs])
  with sign show ?thesis
    by (simp only: py_int_str_def strip Let_def s list.case if_False)
       (simp split: option.splits)
qed

lemma py_int_str_decimal:
  assumes "all_decimal s" "length s \<le> 4300"
  shows "py_int_str s = Inr (decimal_number s)"
proof -
  from assms(1) have ne: "s \<noteq> []" and dec: "list_all is_decimal s"
    by (simp_all add: all_decimal_code)
  from dec have "list_all py_isdigit_char s"
    by (auto simp: list_all_iff is_decimal_isdigit)
  from py_int_str_digits [OF ne this assms(2)] dec show ?thesis
    by (simp add: decimal_fold_number decimal_number_def)
qed

lemma decimal_fold_nonneg:
  "0 \<le> acc \<Longrightarrow> 0 \<le> foldl (\<lambda>a c. 10 * a + digit_number c) acc s"
proof (induction s arbitrary: acc)
  case Nil
  then show ?case by simp
next
  case (Cons c s)
  from Cons.prems have "0 \<le> 10 * acc + digit_number c" by (simp add: digit_number_def)
  then show ?case using Cons.IH by simp
qed

lemma decimal_number_nonneg: "0 \<le> decimal_number s"
  by (simp add: decimal_number_def decimal_fold_nonneg)

lemma dropWhile_all_iff: "(\<forall>c \<in> set (dropWhile P s). P c) \<longleftrightarrow> (\<forall>c \<in> set s. P c)"
proof
  assume all: "\<forall>c \<in> set (dropWhile P s). P c"
  have "dropWhile P s = []"
  proof (cases "dropWhile P s")
    case Nil
    then show ?thesis .
  next
    case (Cons d ds)
    then have "\<not> P d" using hd_dropWhile [of P s] by simp
    with Cons all show ?thesis by simp
  qed
  then show "\<forall>c \<in> set s. P c" by (simp add: dropWhile_eq_Nil_conv)
next
  assume "\<forall>c \<in> set s. P c"
  then show "\<forall>c \<in> set (dropWhile P s). P c" by (blast dest: set_dropWhileD)
qed

lemma py_strip_blank: "py_strip s = [] \<longleftrightarrow> blank s"
proof -
  have "py_strip s = [] \<longleftrightarrow> (\<forall>c \<in> set (dropWhile py_isspace s). py_isspace c)"
    unfolding py_strip_def rev_is_Nil_conv dropWhile_eq_Nil_conv set_rev ..
  also have "\<dots> \<longleftrightarrow> (\<forall>c \<in> set s. py_isspace c)" by (rule dropWhile_all_iff)
  finally show ?thesis by (simp add: blank_def list_all_iff py_isspace_chars)
qed

subsection \<open>Loading metadata\<close>








lemma load_lines_length:
  "load_lines ext lines acc ev = Inr (recs, ev')
     \<Longrightarrow> length recs = length acc + length (filter (\<lambda>line. \<not> blank line) lines)"
proof (induction lines arbitrary: acc ev)
  case Nil
  then show ?case by simp
next
  case (Cons l ls)
  show ?case
  proof (cases "blank l")
    case True
    with Cons.prems have "load_lines ext ls acc ev = Inr (recs, ev')"
      by (simp add: py_strip_blank)
    from Cons.IH [OF this] True show ?thesis by simp
  next
    case False
    with Cons.prems obtain entry ev1
      where "load_lines ext ls (acc @ [entry]) ev1 = Inr (recs, ev')"
      by (auto simp: bind_exn_eq_Inr py_strip_blank)
    from Cons.IH [OF this] False show ?thesis by simp
  qed
qed

lemma index_spec_py_int:
  assumes "index_spec n v = Some k"
  shows "py_int v = Inr (int k) \<and> k < n"
proof (cases v)
  case (PInt i)
  with assms show ?thesis by (auto split: if_splits)
next
  case (PStr s)
  with assms have dec: "all_decimal s" and len: "length s \<le> 4300"
    and lt: "decimal_number s < int n" and k: "k = nat (decimal_number s)"
    by (auto split: if_splits)
  from py_int_str_decimal [OF dec len] k lt decimal_number_nonneg [of s] PStr
  show ?thesis by simp
qed (use assms in simp_all)

lemma object_at_index: "index_spec (length objs) v = Some k \<Longrightarrow> object_at objs v = objs ! k"
  by (simp add: object_at_def)

lemma wf_relationD:
  "wf_relation n rel \<Longrightarrow>
     \<exists>s p ob i j. rel = PList [s, PStr p, ob] \<and> index_spec n s = Some i
        \<and> index_spec n ob = Some j"
  by (erule wf_relation.elims(2)) auto

lemma resolve_relation_wf:
  assumes "wf_relation (length objs) rel"
  shows "resolve_relation (PList objs) rel = Inr (named_triple objs rel)"
proof -
  from wf_relationD [OF assms] obtain s p ob i j
    where rel: "rel = PList [s, PStr p, ob]"
      and s: "index_spec (length objs) s = Some i"
      and ob: "index_spec (length objs) ob = Some j"
    by blast
  from index_spec_py_int [OF s] have i: "py_int s = Inr (int i)" "i < length objs"
    by simp_all
  from index_spec_py_int [OF ob] have j: "py_int ob = Inr (int j)" "j < length objs"
    by simp_all
  have items: "py_getitem rel 0 = Inr s" "py_getitem rel 1 = Inr (PStr p)"
    "py_getitem rel 2 = Inr ob"
    by (simp_all add: rel seq_index_def)
  from i(2) j(2) have objs: "seq_index objs (int i) = Inr (objs ! i)"
    "seq_index objs (int j) = Inr (objs ! j)"
    by (simp_all add: seq_index_def)
  have "named_triple objs rel = PList [objs ! i, PStr p, objs ! j]"
    by (simp add: rel object_at_index [OF s] object_at_index [OF ob])
  then show ?thesis
    by (simp add: resolve_relation_def items i(1) j(1) objs)
qed

lemma predicate_of_wf:
  assumes "wf_relation n rel"
  shows "\<exists>p. py_getitem rel 1 = Inr (PStr p)"
proof -
  from wf_relationD [OF assms] obtain s p ob where "rel = PList [s, PStr p, ob]" by blast
  then show ?thesis by (simp add: seq_index_def)
qed

lemma predicates_of_wf:
  "list_all (wf_relation n) rels \<Longrightarrow>
     \<exists>preds. map_exn (\<lambda>rel. py_getitem rel 1) rels = Inr preds \<and> list_all is_str preds"
proof (induction rels)
  case Nil
  then show ?case by simp
next
  case (Cons rel rels)
  from Cons.prems have "wf_relation n rel" by simp
  from predicate_of_wf [OF this] obtain p where p: "py_getitem rel 1 = Inr (PStr p)" by blast
  from Cons obtain preds
    where "map_exn (\<lambda>rel. py_getitem rel 1) rels = Inr preds" "list_all is_str preds"
    by auto
  with p show ?case by simp
qed

lemma set_update_strings: "list_all is_str xs \<Longrightarrow> set_update S xs = Inr (S \<union> set xs)"
  by (auto simp: set_update_def list_all_iff is_str_hashable)

lemma py_getkey_field: "json_field data k = Some v \<Longrightarrow> py_getkey data k = Inr v"
  by (cases data) simp_all

lemma wf_fieldsD:
  "wf_fields a b c d \<Longrightarrow>
     \<exists>objs rels fname cap. a = Some (PList objs) \<and> b = Some (PList rels) \<and> c = Some fname
        \<and> d = Some cap \<and> list_all is_str objs \<and> list_all (wf_relation (length objs)) rels"
  by (erule wf_fields.elims(2)) simp

lemma load_record_wf:
  assumes "wf_record data"
  shows "\<exists>ev'. load_record data ev = Inr (spec_entry data, ev')"
proof -
  from wf_fieldsD [OF assms [unfolded wf_record_def]] obtain objs rels fname cap
    where fields: "json_field data ''objects'' = Some (PList objs)"
      "json_field data ''relations'' = Some (PList rels)"
      "json_field data ''file_name'' = Some fname" "json_field data ''caption'' = Some cap"
      and objs: "list_all is_str objs"
      and rels: "list_all (wf_relation (length objs)) rels"
    by blast
  note keys = fields [THEN py_getkey_field]
  have sg: "map_exn (resolve_relation (PList objs)) rels = Inr (map (named_triple objs) rels)"
    by (rule map_exn_all_Inr) (use rels in \<open>simp add: list_all_iff resolve_relation_wf\<close>)
  from predicates_of_wf [OF rels] obtain preds
    where preds: "map_exn (\<lambda>rel. py_getitem rel 1) rels = Inr preds" "list_all is_str preds"
    by blast
  have entry: "spec_entry data =
      \<lparr>file_name = fname, caption = cap, scene_graph = map (named_triple objs) rels,
       objects = PList objs, relations = PList rels\<rparr>"
    by (simp add: spec_entry_def field_of_def fields)
  show ?thesis
    by (simp add: load_record_def keys sg preds set_update_strings objs entry)
qed

lemma load_lines_wf:
  assumes "\<forall>line \<in> set lines. \<not> blank line \<longrightarrow> wf_line ext line"
  shows "\<exists>ev'. load_lines ext lines acc ev = Inr (acc @ spec_records ext lines, ev')"
  using assms
proof (induction lines arbitrary: acc ev)
  case Nil
  then show ?case by (simp add: spec_records_def)
next
  case (Cons l ls)
  from Cons.prems have rest: "\<forall>line \<in> set ls. \<not> blank line \<longrightarrow> wf_line ext line" by simp
  show ?case
  proof (cases "blank l")
    case True
    then have "spec_records ext (l # ls) = spec_records ext ls" by (simp add: spec_records_def)
    with True Cons.IH [OF rest, of acc ev] show ?thesis by (simp add: py_strip_blank)
  next
    case False
    with Cons.prems have "wf_line ext l" by simp
    then obtain data where data: "json_loads ext l = Inr data" and wf: "wf_record data"
      by (cases "json_loads ext l") (auto simp: wf_line_def)
    from load_record_wf [OF wf, of ev] obtain ev1
      where rec: "load_record data ev = Inr (spec_entry data, ev1)" by blast
    from data have dec: "decoded ext l = data" by (simp add: decoded_def)
    with False have recs: "spec_records ext (l # ls) = spec_entry data # spec_records ext ls"
      by (simp add: spec_records_def)
    from Cons.IH [OF rest, of "acc @ [spec_entry data]" ev1] obtain ev'
      where "load_lines ext ls (acc @ [spec_entry data]) ev1
        = Inr ((acc @ [spec_entry data]) @ spec_records ext ls, ev')"
      by blast
    with False data rec recs show ?thesis by (simp add: py_strip_blank)
  qed
qed

text \<open>
  Claim C8. The loader returns one record per line that is not blank (a line of
  whitespace only, such as the bare line end, is skipped), in line order, so that the
  position of a record is its scene id; when every such line follows the metadata
  schema the load succeeds and returns the spec's records, each index, integer or
  string, replaced by the object it denotes. The line of the scenario loads to the
  scene graph \<open>[[cat, on, mat]]\<close>, as the only record (scene id 0).
\<close>

theorem load_metadata_records:
  "(\<forall>recs ev'. load_metadata ext ev lines = Inr (recs, ev')
       \<longrightarrow> length recs = length (filter (\<lambda>line. \<not> blank line) lines))
   \<and> ((\<forall>line \<in> set lines. \<not> blank line \<longrightarrow> wf_line ext line) \<longrightarrow>
        (\<exists>ev'. load_metadata ext ev lines = Inr (spec_records ext lines, ev')))
   \<and> (json_loads ext scenario_line = Inr scenario_data \<longrightarrow>
        (\<exists>ev'. load_metadata ext ev [scenario_line]
           = Inr ([\<lparr>file_name = PStr ''a'', caption = PStr ''c'',
                     scene_graph = [PList [PStr ''cat'', PStr ''on'', PStr ''mat'']],
                     objects = PList [PStr ''cat'', PStr ''mat''],
                     relations = PList [PList [PInt 0, PStr ''on'', PInt 1]]\<rparr>], ev')))"
proof (intro conjI impI allI)
  fix recs ev' assume "load_metadata ext ev lines = Inr (recs, ev')"
  then show "length recs = length (filter (\<lambda>line. \<not> blank line) lines)"
    using load_lines_length [of ext lines "[]" ev recs ev'] by (simp add: load_metadata_def)
next
  assume "\<forall>line \<in> set lines. \<not> blank line \<longrightarrow> wf_line ext line"
  from load_lines_wf [OF this, of "[]" ev]
  show "\<exists>ev'. load_metadata ext ev lines = Inr (spec_records ext lines, ev')"
    by (simp add: load_metadata_def)
next
  assume dec: "json_loads ext scenario_line = Inr scenario_data"
  have nb: "\<not> blank scenario_line"
    by (simp add: blank_def scenario_line_def whitespace_chars_def)
  have wf: "wf_record scenario_data"
    by (simp add: wf_record_def scenario_data_def)
  from dec wf have "\<forall>line \<in> set [scenario_line]. \<not> blank line \<longrightarrow> wf_line ext line"
    by (simp add: wf_line_def)
  from load_lines_wf [OF this, of "[]" ev] obtain ev'
    where loaded: "load_lines ext [scenario_line] [] ev
      = Inr (spec_records ext [scenario_line], ev')"
    by auto
  from dec have "decoded ext scenario_line = scenario_data" by (simp add: decoded_def)
  with nb have "spec_records ext [scenario_line] = [spec_entry scenario_data]"
    by (simp add: spec_records_def)
  moreover have "spec_entry scenario_data
      = \<lparr>file_name = PStr ''a'', caption = PStr ''c'',
         scene_graph = [PList [PStr ''cat'', PStr ''on'', PStr ''mat'']],
         objects = PList [PStr ''cat'', PStr ''mat''],
         relations = PList [PList [PInt 0, PStr ''on'', PInt 1]]\<rparr>"
    by (simp add: spec_entry_def scenario_data_def field_of_def object_at_def)
  ultimately show "\<exists>ev'. load_metadata ext ev [scenario_line]
      = Inr ([\<lparr>file_name = PStr ''a'', caption = PStr ''c'',
                scene_graph = [PList [PStr ''cat'', PStr ''on'', PStr ''mat'']],
                objects = PList [PStr ''cat'', PStr ''mat''],
                relations = PList [PList [PInt 0, PStr ''on'', PInt 1]]\<rparr>], ev')"
    using loaded by (simp add: load_metadata_def)
qed

theorem load_metadata_records_witness:
  "\<exists>ev'. load_metadata (externals_with sample_table (Inl ExternalError)) new_evaluator
           sample_lines
     = Inr ([\<lparr>file_name = PStr ''a'', caption = PStr ''c'',
               scene_graph = [PList [PStr ''cat'', PStr ''on'', PStr ''mat'']],
               objects = PList [PStr ''cat'', PStr ''mat''],
               relations = PList [PList [PInt 0, PStr ''on'', PInt 1]]\<rparr>,
             \<lparr>file_name = PStr ''b'', caption = PStr ''d'',
               scene_graph = [PList [PStr ''rug'', PStr ''under'', PStr ''dog'']],
               objects = PList [PStr ''dog'', PStr ''rug''],
               relations = PList [PList [PStr ''1'', PStr ''under'', PStr ''0'']]\<rparr>], ev')"
proof -
  let ?ext = "externals_with sample_table (Inl ExternalError)"
  have differ: "scenario_line \<noteq> string_index_line"
    by (simp add: scenario_line_def string_index_line_def)
  have dec: "json_loads ?ext scenario_line = Inr scenario_data"
    "json_loads ?ext string_index_line = Inr string_index_data"
    using differ by (simp_all add: externals_with_def sample_table_def)
  have wf: "wf_record scenario_data" "wf_record string_index_data"
    by (simp_all add: wf_record_def scenario_data_def string_index_data_def all_decimal_def
        decimal_digits_def decimal_number_def digit_number_def)
  have blanks: "blank [CHR 0x0A]" "blank [CHR 0x20, CHR 0x09, CHR 0x0A]"
    by (simp_all add: blank_def whitespace_chars_def)
  have nb: "\<not> blank scenario_line" "\<not> blank string_index_line"
    by (simp_all add: blank_def scenario_line_def string_index_line_def whitespace_chars_def)
  from dec wf have wfl: "wf_line ?ext scenario_line" "wf_line ?ext string_index_line"
    by (simp_all add: wf_line_def)
  then have all: "\<forall>line \<in> set sample_lines. \<not> blank line \<longrightarrow> wf_line ?ext line"
    by (simp add: sample_lines_def blanks)
  from dec have decoded: "decoded ?ext scenario_line = scenario_data"
    "decoded ?ext string_index_line = string_index_data"
    by (simp_all add: decoded_def)
  have entries: "spec_entry scenario_data
      = \<lparr>file_name = PStr ''a'', caption = PStr ''c'',
         scene_graph = [PList [PStr ''cat'', PStr ''on'', PStr ''mat'']],
         objects = PList [PStr ''cat'', PStr ''mat''],
         relations = PList [PList [PInt 0, PStr ''on'', PInt 1]]\<rparr>"
    "spec_entry string_index_data
      = \<lparr>file_name = PStr ''b'', caption = PStr ''d'',
         scene_graph = [PList [PStr ''rug'', PStr ''under'', PStr ''dog'']],
         objects = PList [PStr ''dog'', PStr ''rug''],
         relations = PList [PList [PStr ''1'', PStr ''under'', PStr ''0'']]\<rparr>"
    by (simp_all add: spec_entry_def scenario_data_def string_index_data_def field_of_def
        object_at_def all_decimal_def decimal_digits_def decimal_number_def digit_number_def)
  have "spec_records ?ext sample_lines
      = [spec_entry scenario_data, spec_entry string_index_data]"
    by (simp add: spec_records_def sample_lines_def blanks nb decoded)
  with load_metadata_records [of ?ext new_evaluator sample_lines] all entries
  show ?thesis by auto
qed

subsection \<open>Relation indices outside the objects\<close>





subsection \<open>Resolving the scene id of an image\<close>

lemma split_from_first_field:
  "first_field (split_from [c] acc s) = rev acc @ takeWhile (\<lambda>d. d \<noteq> c) s"
proof (induction s arbitrary: acc)
  case Nil
  then show ?case by (simp add: first_field_def)
next
  case (Cons x xs)
  show ?case
  proof (cases "x = c")
    case True
    then show ?thesis by (simp add: first_field_def)
  next
    case False
    with Cons.IH [of "x # acc"] show ?thesis by simp
  qed
qed

lemma first_field_split: "first_field (py_split s [c]) = takeWhile (\<lambda>d. d \<noteq> c) s"
  using split_from_first_field [of c "[]" s] by (simp add: py_split_def)

text \<open>The last occurrence of a character: where \<open>rfind\<close> finds it, and the text before
  it as scanning from the end gives it.\<close>

lemma last_occurrence:
  assumes "c \<in> set name"
  shows "\<exists>pre post. name = pre @ c # post
     \<and> length pre = length name - 1 - length (takeWhile (\<lambda>d. d \<noteq> c) (rev name))
     \<and> pre = rev (drop 1 (dropWhile (\<lambda>d. d \<noteq> c) (rev name)))"
proof -
  define t where "t = takeWhile (\<lambda>d. d \<noteq> c) (rev name)"
  define dw where "dw = dropWhile (\<lambda>d. d \<noteq> c) (rev name)"
  have split: "rev name = t @ dw" by (simp add: t_def dw_def)
  from assms have ne: "dw \<noteq> []" by (auto simp: dw_def dropWhile_eq_Nil_conv)
  then obtain x rest where dw: "dw = x # rest" by (cases dw) auto
  from ne have "\<not> hd dw \<noteq> c" unfolding dw_def by (rule hd_dropWhile)
  with dw have x: "x = c" by simp
  from split have "rev (rev name) = rev (t @ dw)" by (rule arg_cong)
  then have nm: "name = rev rest @ c # rev t" by (simp add: dw x)
  have "length name = length rest + 1 + length t" by (subst nm) simp
  then have len: "length (rev rest) = length name - 1 - length t" by simp
  have pre: "rev rest = rev (drop 1 dw)" by (simp add: dw)
  from nm [unfolded t_def] len [unfolded t_def] pre [unfolded dw_def]
  show ?thesis by blast
qed

lemma splitext_globbed:
  assumes "globbed_name name"
  shows "fst (splitext name) = strip_extension name"
proof -
  from assms obtain c cs where name: "name = c # cs" and c: "c \<noteq> CHR ''.''"
    and sep: "CHR ''/'' \<notin> set name"
    by (cases name) (auto simp: globbed_name_def)
  from sep have nosep: "rfind name (CHR ''/'') = None" by (simp add: rfind_def)
  show ?thesis
  proof (cases "CHR ''.'' \<in> set name")
    case False
    then show ?thesis by (simp add: splitext_def rfind_def strip_extension_def)
  next
    case True
    define d where "d = length name - 1 - length (takeWhile (\<lambda>x. x \<noteq> CHR ''.'') (rev name))"
    from True have dot: "rfind name (CHR ''.'') = Some d" by (simp add: rfind_def d_def)
    from last_occurrence [OF True] obtain pre post
      where nm: "name = pre @ CHR ''.'' # post" and len: "length pre = d"
        and pre: "pre = rev (drop 1 (dropWhile (\<lambda>x. x \<noteq> CHR ''.'') (rev name)))"
      unfolding d_def by blast
    from nm len have stem: "take d name = pre" by simp
    from nm name c obtain rest where "pre = c # rest" by (cases pre) auto
    with c have "list_ex (\<lambda>x. x \<noteq> CHR ''.'') pre" by simp
    with stem have ex: "list_ex (\<lambda>x. x \<noteq> CHR ''.'') (take d name)" by simp
    have "fst (splitext name) = take d name"
      by (simp add: splitext_def dot nosep ex)
    with stem pre True show ?thesis by (simp add: strip_extension_def)
  qed
qed

lemma segment_length:
  "length (takeWhile P (strip_extension name)) \<le> length name"
proof -
  have "length (takeWhile P (strip_extension name)) \<le> length (strip_extension name)"
    by (rule length_takeWhile_le)
  also have "\<dots> \<le> length name"
  proof -
    have "length (dropWhile (\<lambda>c. c \<noteq> CHR ''.'') (rev name)) \<le> length (rev name)"
      by (rule length_dropWhile_le)
    then have "length (dropWhile (\<lambda>c. c \<noteq> CHR ''.'') (rev name)) - Suc 0 \<le> length name"
      by simp
    then show ?thesis by (simp add: strip_extension_def)
  qed
  finally show ?thesis .
qed

lemma scene_idx_of_spec:
  assumes "globbed_name name"
  shows "scene_idx_of name = scene_id_spec name"
proof -
  define seg where "seg = takeWhile (\<lambda>c. c \<noteq> CHR ''_'') (strip_extension name)"
  from assms have "length name \<le> 4300" by (cases name) (auto simp: globbed_name_def)
  with segment_length [of "\<lambda>c. c \<noteq> CHR ''_''" name] have len: "length seg \<le> 4300"
    by (simp add: seg_def)
  have code: "scene_idx_of name =
      (if py_isdigit seg then (case py_int_str seg of Inl e \<Rightarrow> None | Inr i \<Rightarrow> Some i) else None)"
    by (simp add: scene_idx_of_def Let_def first_field_split seg_def splitext_globbed [OF assms])
  have spec: "scene_id_spec name = (if all_decimal seg then Some (decimal_number seg) else None)"
    by (simp add: scene_id_spec_def Let_def seg_def)
  show ?thesis
  proof (cases "all_decimal seg")
    case True
    then have "py_isdigit seg"
      by (auto simp: all_decimal_code py_isdigit_def list_all_iff is_decimal_isdigit)
    with py_int_str_decimal [OF True len] True show ?thesis by (simp add: code spec)
  next
    case False
    show ?thesis
    proof (cases "py_isdigit seg")
      case True
      then have ne: "seg \<noteq> []" and dig: "list_all py_isdigit_char seg"
        by (simp_all add: py_isdigit_def)
      from False ne have "\<not> list_all is_decimal seg" by (simp add: all_decimal_code)
      with py_int_str_digits [OF ne dig len] True False show ?thesis
        by (simp add: code spec)
    next
      case no: False
      with False show ?thesis by (simp add: code spec)
    qed
  qed
qed

lemma scene_id_spec_nonneg: "scene_id_spec name = Some i \<Longrightarrow> 0 \<le> i"
  using decimal_number_nonneg by (auto simp: scene_id_spec_def Let_def split: if_splits)

lemma eval_images_skip:
  assumes "globbed_name (basename p)" "\<not> has_record (length md) (basename p)"
  shows "eval_images ext ev md (p # ps) st
         = eval_images ext ev md ps (st\<lparr>skipped := skipped st + 1\<rparr>)"
proof (cases "scene_id_spec (basename p)")
  case None
  then show ?thesis by (simp add: scene_idx_of_spec [OF assms(1)])
next
  case (Some i)
  with assms(2) scene_id_spec_nonneg [OF Some] have "\<not> i < int (length md)"
    by (simp add: has_record_def)
  with Some show ?thesis by (simp add: scene_idx_of_spec [OF assms(1)])
qed

lemma eval_images_score:
  assumes "globbed_name (basename p)" "has_record (length md) (basename p)"
  shows "\<exists>i. scene_id_spec (basename p) = Some i \<and> 0 \<le> i \<and> i < int (length md)
    \<and> eval_images ext ev md (p # ps) st =
        bind_exn (evaluate_image ext ev p (scene_graph (md ! nat i)))
          (\<lambda>m. eval_images ext ev md ps (record_result st (basename p) i (md ! nat i) m))"
proof -
  from assms(2) obtain i
    where i: "scene_id_spec (basename p) = Some i" "0 \<le> i" "i < int (length md)"
    by (auto simp: has_record_def split: option.splits)
  then have "eval_images ext ev md (p # ps) st =
        bind_exn (evaluate_image ext ev p (scene_graph (md ! nat i)))
          (\<lambda>m. eval_images ext ev md ps (record_result st (basename p) i (md ! nat i) m))"
    by (simp add: scene_idx_of_spec [OF assms(1)] Let_def)
  with i show ?thesis by blast
qed

lemma eval_images_counts:
  "list_all (\<lambda>p. globbed_name (basename p)) imgs \<Longrightarrow>
   eval_images ext ev md imgs st = Inr st' \<Longrightarrow>
     skipped st' = skipped st
        + length (filter (\<lambda>p. \<not> has_record (length md) (basename p)) imgs)
     \<and> evaluated st' = evaluated st
        + length (filter (\<lambda>p. has_record (length md) (basename p)) imgs)
     \<and> map image (results st')
         = map image (results st)
           @ map basename (filter (\<lambda>p. has_record (length md) (basename p)) imgs)"
proof (induction imgs arbitrary: st)
  case Nil
  then show ?case by simp
next
  case (Cons p ps)
  from Cons.prems(1) have gp: "globbed_name (basename p)"
    and rest: "list_all (\<lambda>p. globbed_name (basename p)) ps" by simp_all
  show ?case
  proof (cases "has_record (length md) (basename p)")
    case False
    from Cons.prems(2)
    have "eval_images ext ev md ps (st\<lparr>skipped := skipped st + 1\<rparr>) = Inr st'"
      unfolding eval_images_skip [OF gp False] .
    from Cons.IH [OF rest this] False show ?thesis by simp
  next
    case True
    from eval_images_score [OF gp True, of ext ev ps st] obtain i
      where eq: "eval_images ext ev md (p # ps) st =
        bind_exn (evaluate_image ext ev p (scene_graph (md ! nat i)))
          (\<lambda>m. eval_images ext ev md ps (record_result st (basename p) i (md ! nat i) m))"
      by blast
    from Cons.prems(2) [unfolded eq] obtain m
      where "eval_images ext ev md ps (record_result st (basename p) i (md ! nat i) m) = Inr st'"
      unfolding bind_exn_eq_Inr by blast
    from Cons.IH [OF rest this] True show ?thesis by (simp add: record_result_def)
  qed
qed

text \<open>
  Claim C4. For a file name as \<open>glob\<close> returns it, the scene id computed by
  \<open>evaluate_method\<close> is the one the spec describes: the extension stripped, the stem
  taken up to the first underscore, and that segment parsed when it is non-empty and
  made of decimal digits only, no id otherwise; an id is never negative. An image with
  no id, or with an id that is not below the number of records, is skipped and counted
  without being scored; a completed run has skipped exactly those images and holds
  one result for each of the others, in order. \<open>000_002.png\<close> resolves to scene id 0,
  \<open>014.png\<close> to 14, and \<open>foo.png\<close> does not resolve.
\<close>

theorem scene_id_resolution:
  "(globbed_name name \<longrightarrow> scene_idx_of name = scene_id_spec name)
   \<and> (scene_id_spec name = Some i \<longrightarrow> 0 \<le> i)
   \<and> (globbed_name (basename p) \<and> \<not> has_record (length md) (basename p) \<longrightarrow>
        eval_images ext ev md (p # ps) st
        = eval_images ext ev md ps (st\<lparr>skipped := skipped st + 1\<rparr>))
   \<and> (list_all (\<lambda>p. globbed_name (basename p)) imgs
        \<and> eval_images ext ev md imgs st = Inr st' \<longrightarrow>
        skipped st' = skipped st
          + length (filter (\<lambda>p. \<not> has_record (length md) (basename p)) imgs)
        \<and> map image (results st')
            = map image (results st)
              @ map basename (filter (\<lambda>p. has_record (length md) (basename p)) imgs))
   \<and> scene_idx_of ''000_002.png'' = Some 0 \<and> scene_idx_of ''014.png'' = Some 14
   \<and> scene_idx_of ''foo.png'' = None
   \<and> scene_id_spec ''000_002.png'' = Some 0 \<and> scene_id_spec ''014.png'' = Some 14
   \<and> scene_id_spec ''foo.png'' = None"
proof (intro conjI impI)
  assume "globbed_name name"
  then show "scene_idx_of name = scene_id_spec name" by (rule scene_idx_of_spec)
next
  assume "scene_id_spec name = Some i"
  then show "0 \<le> i" by (rule scene_id_spec_nonneg)
next
  assume "globbed_name (basename p) \<and> \<not> has_record (length md) (basename p)"
  then have g: "globbed_name (basename p)"
    and h: "\<not> has_record (length md) (basename p)" by simp_all
  show "eval_images ext ev md (p # ps) st
      = eval_images ext ev md ps (st\<lparr>skipped := skipped st + 1\<rparr>)"
    by (rule eval_images_skip [OF g h])
next
  assume run: "list_all (\<lambda>p. globbed_name (basename p)) imgs
      \<and> eval_images ext ev md imgs st = Inr st'"
  then have g: "list_all (\<lambda>p. globbed_name (basename p)) imgs"
    and r: "eval_images ext ev md imgs st = Inr st'" by simp_all
  from eval_images_counts [OF g r]
  show "skipped st' = skipped st
      + length (filter (\<lambda>p. \<not> has_record (length md) (basename p)) imgs)"
    by simp
  from eval_images_counts [OF g r]
  show "map image (results st')
      = map image (results st)
        @ map basename (filter (\<lambda>p. has_record (length md) (basename p)) imgs)"
    by simp
next
  show "scene_id_spec ''000_002.png'' = Some 0"
    by (simp add: scene_id_spec_def strip_extension_def all_decimal_def decimal_digits_def
        decimal_number_def digit_number_def)
next
  show "scene_id_spec ''014.png'' = Some 14"
    by (simp add: scene_id_spec_def strip_extension_def all_decimal_def decimal_digits_def
        decimal_number_def digit_number_def)
next
  show "scene_id_spec ''foo.png'' = None"
    by (simp add: scene_id_spec_def strip_extension_def all_decimal_def decimal_digits_def)
next
  show "scene_idx_of ''000_002.png'' = Some 0"
    by (simp add: scene_idx_of_def splitext_def rfind_def py_split_def first_field_def
        py_isdigit_def py_isdigit_char_def is_decimal_def py_int_str_def int_isspace_def
        int_max_str_digits_def unsigned_int_def digit_value_def)
next
  show "scene_idx_of ''014.png'' = Some 14"
    by (simp add: scene_idx_of_def splitext_def rfind_def py_split_def first_field_def
        py_isdigit_def py_isdigit_char_def is_decimal_def py_int_str_def int_isspace_def
        int_max_str_digits_def unsigned_int_def digit_value_def)
next
  show "scene_idx_of ''foo.png'' = None"
    by (simp add: scene_idx_of_def splitext_def rfind_def py_split_def first_field_def
        py_isdigit_def py_isdigit_char_def is_decimal_def)
qed

theorem scene_id_resolution_witness:
  "scene_idx_of ''014_002.jpg'' = Some 14
   \<and> scene_id_spec ''014_002.jpg'' = Some 14
   \<and> eval_images (externals_with [] (Inl ExternalError)) new_evaluator [spec_entry scenario_data]
        [''images/007.png'', ''images/foo.png''] initial_state
      = Inr (initial_state\<lparr>skipped := 2\<rparr>)"
proof -
  let ?ext = "externals_with [] (Inl ExternalError)"
  let ?md = "[spec_entry scenario_data]"
  have id: "scene_id_spec ''014_002.jpg'' = Some 14"
    by (simp add: scene_id_spec_def strip_extension_def all_decimal_def decimal_digits_def
        decimal_number_def digit_number_def)
  have g: "globbed_name ''014_002.jpg''" by (simp add: globbed_name_def)
  have b7: "basename ''images/007.png'' = ''007.png''"
    and bfoo: "basename ''images/foo.png'' = ''foo.png''"
    by (simp_all add: basename_def rfind_def)
  have no7: "globbed_name (basename ''images/007.png'')
      \<and> \<not> has_record (length ?md) (basename ''images/007.png'')"
    by (simp add: b7 globbed_name_def has_record_def scene_id_spec_def strip_extension_def
        all_decimal_def decimal_digits_def decimal_number_def digit_number_def)
  have nofoo: "globbed_name (basename ''images/foo.png'')
      \<and> \<not> has_record (length ?md) (basename ''images/foo.png'')"
    by (simp add: bfoo globbed_name_def has_record_def scene_id_spec_def strip_extension_def
        all_decimal_def decimal_digits_def)
  have code: "scene_idx_of ''014_002.jpg'' = Some 14"
    using scene_id_resolution [of "''014_002.jpg''" 14 "''images/007.png''" ?md ?ext
        new_evaluator "[''images/foo.png'']" initial_state "[]" initial_state] g id
    by simp
  have "eval_images ?ext new_evaluator ?md [''images/007.png'', ''images/foo.png''] initial_state
      = eval_images ?ext new_evaluator ?md [''images/foo.png'']
          (initial_state\<lparr>skipped := skipped initial_state + 1\<rparr>)"
    using scene_id_resolution [of "''014_002.jpg''" 14 "''images/007.png''" ?md ?ext
        new_evaluator "[''images/foo.png'']" initial_state "[]" initial_state] no7
    by blast
  also have "\<dots> = eval_images ?ext new_evaluator ?md []
      (initial_state\<lparr>skipped := skipped initial_state + 1 + 1\<rparr>)"
    using scene_id_resolution [of "''014_002.jpg''" 14 "''images/foo.png''" ?md ?ext
        new_evaluator "[]" "initial_state\<lparr>skipped := skipped initial_state + 1\<rparr>" "[]"
        initial_state] nofoo
    by simp
  also have "\<dots> = Inr (initial_state\<lparr>skipped := 2\<rparr>)"
    by (simp add: initial_state_def)
  finally show ?thesis using id code by simp
qed

subsection \<open>The three scores of an image\<close>

lemma is_triple_str_list: "is_triple v \<Longrightarrow> is_str_list v"
  by (erule is_triple.elims(2)) simp

lemma is_tripleD:
  "is_triple v \<Longrightarrow> \<exists>s p ob. v = PList [PStr s, PStr p, PStr ob]"
  by (erule is_triple.elims(2)) simp

lemma triple_components:
  assumes "is_triple v"
  shows "py_getitem v 0 = Inr (triple_subject v)"
    and "py_getitem v 1 = Inr (triple_predicate v)"
    and "py_getitem v 2 = Inr (triple_object v)"
    and "is_str (triple_subject v)" and "is_str (triple_predicate v)"
    and "is_str (triple_object v)"
proof -
  from is_tripleD [OF assms] obtain s p ob where v: "v = PList [PStr s, PStr p, PStr ob]"
    by blast
  show "py_getitem v 0 = Inr (triple_subject v)" "py_getitem v 1 = Inr (triple_predicate v)"
    "py_getitem v 2 = Inr (triple_object v)" "is_str (triple_subject v)"
    "is_str (triple_predicate v)" "is_str (triple_object v)"
    by (simp_all add: v seq_index_def)
qed

lemma components_of_triples:
  assumes "list_all is_triple ts"
  shows "map_exn (\<lambda>sg. py_getitem sg 0) ts = Inr (map triple_subject ts)"
    and "map_exn (\<lambda>sg. py_getitem sg 1) ts = Inr (map triple_predicate ts)"
    and "map_exn (\<lambda>sg. py_getitem sg 2) ts = Inr (map triple_object ts)"
    and "list_all is_str (map triple_subject ts)"
    and "list_all is_str (map triple_predicate ts)"
    and "list_all is_str (map triple_object ts)"
proof -
  from assms have each: "\<And>x. x \<in> set ts \<Longrightarrow> is_triple x" by (simp add: list_all_iff)
  show "map_exn (\<lambda>sg. py_getitem sg 0) ts = Inr (map triple_subject ts)"
    by (rule map_exn_all_Inr) (simp add: each triple_components)
  show "map_exn (\<lambda>sg. py_getitem sg 1) ts = Inr (map triple_predicate ts)"
    by (rule map_exn_all_Inr) (simp add: each triple_components)
  show "map_exn (\<lambda>sg. py_getitem sg 2) ts = Inr (map triple_object ts)"
    by (rule map_exn_all_Inr) (simp add: each triple_components)
  show "list_all is_str (map triple_subject ts)" "list_all is_str (map triple_predicate ts)"
    "list_all is_str (map triple_object ts)"
    by (simp_all add: list_all_iff each triple_components)
qed

lemma compute_iou_of_strings:
  "list_all is_str a \<Longrightarrow> list_all is_str b
     \<Longrightarrow> compute_iou (PList a) (PList b) = Inr (setIoU_spec (set a) (set b))"
  by (rule compute_iou_on_shapes) (simp add: all_strings_def)

lemma compute_iou_of_triples:
  "list_all is_triple a \<Longrightarrow> list_all is_triple b
     \<Longrightarrow> compute_iou (PList a) (PList b) = Inr (setIoU_spec (set a) (set b))"
  by (rule compute_iou_on_shapes) (simp add: all_str_lists_def list_all_iff is_triple_str_list)

lemma evaluate_image_on_prediction:
  assumes "extract_scene_graph_from_image ext ev image_path = Inr extracted"
    and "py_getkey extracted ''scene_graph'' = Inr (PList pred_sg)"
    and "py_getkey extracted ''entities'' = Inr (PList pred_entities)"
    and "list_all is_triple gt" and "list_all is_triple pred_sg"
    and "list_all is_str pred_entities"
  shows "evaluate_image ext ev image_path gt =
     Inr \<lparr>sg_iou = setIoU_spec (set gt) (set pred_sg),
          entity_iou = setIoU_spec (triple_subject ` set gt \<union> triple_object ` set gt)
                         (set pred_entities),
          relation_iou = setIoU_spec (triple_predicate ` set gt) (triple_predicate ` set pred_sg),
          predicted_sg = PList pred_sg, predicted_entities = PList pred_entities\<rparr>"
proof -
  note gt = components_of_triples [OF assms(4)]
  note pr = components_of_triples [OF assms(5)]
  from gt(4,6) have ents: "list_all is_str (map triple_subject gt @ map triple_object gt)"
    by simp
  then have "list_all py_hashable (map triple_subject gt @ map triple_object gt)"
    by (auto simp: list_all_iff is_str_hashable)
  then have los: "list_of_set (map triple_subject gt @ map triple_object gt)
      = Inr (remdups (map triple_subject gt @ map triple_object gt))"
    by (simp add: list_of_set_def)
  from ents have ents': "list_all is_str (remdups (map triple_subject gt @ map triple_object gt))"
    by (simp add: list_all_iff)
  have rels: "(if py_truthy (PList pred_sg)
        then bind_exn (py_iter (PList pred_sg)) (map_exn (\<lambda>sg. py_getitem sg 1))
        else Inr []) = Inr (map triple_predicate pred_sg)"
    by (cases "pred_sg = []") (simp_all add: pr(2))
  have sg: "compute_iou (PList gt) (PList pred_sg) = Inr (setIoU_spec (set gt) (set pred_sg))"
    using assms(4,5) by (rule compute_iou_of_triples)
  have ent: "compute_iou (PList (remdups (map triple_subject gt @ map triple_object gt)))
        (PList pred_entities)
      = Inr (setIoU_spec (triple_subject ` set gt \<union> triple_object ` set gt) (set pred_entities))"
    using compute_iou_of_strings [OF ents' assms(6)] by simp
  have rel: "compute_iou (PList (map triple_predicate gt)) (PList (map triple_predicate pred_sg))
      = Inr (setIoU_spec (triple_predicate ` set gt) (triple_predicate ` set pred_sg))"
    using compute_iou_of_strings [OF gt(5) pr(5)] by simp
  show ?thesis
    unfolding evaluate_image_def
    by (simp only: assms(1,2,3) bind_exn_Inr gt(1,2,3) los rels sg ent rel)
qed

text \<open>
  Claim C5. For ground-truth triples and a prediction made of triples and of entity
  strings, \<open>evaluate_image\<close> returns: as \<open>entity_iou\<close> the IoU of the subjects and
  objects of the ground-truth triples against the \<open>entities\<close> field of the prediction
  as it is; as \<open>relation_iou\<close> the IoU of the predicates of the ground-truth triples
  against the predicates of the predicted triples; as \<open>sg_iou\<close> the IoU of the triples.
\<close>

theorem evaluate_image_scores:
  assumes "extract_scene_graph_from_image ext ev image_path = Inr extracted"
    and "py_getkey extracted ''scene_graph'' = Inr (PList pred_sg)"
    and "py_getkey extracted ''entities'' = Inr (PList pred_entities)"
    and "list_all is_triple gt" and "list_all is_triple pred_sg"
    and "list_all is_str pred_entities"
  shows "evaluate_image ext ev image_path gt =
     Inr \<lparr>sg_iou = setIoU_spec (set gt) (set pred_sg),
          entity_iou = setIoU_spec (triple_subject ` set gt \<union> triple_object ` set gt)
                         (set pred_entities),
          relation_iou = setIoU_spec (triple_predicate ` set gt) (triple_predicate ` set pred_sg),
          predicted_sg = PList pred_sg, predicted_entities = PList pred_entities\<rparr>"
proof -
  have scored: "evaluate_image ext ev image_path gt =
     Inr \<lparr>sg_iou = setIoU_spec (set gt) (set pred_sg),
          entity_iou = setIoU_spec (triple_subject ` set gt \<union> triple_object ` set gt)
                         (set pred_entities),
          relation_iou = setIoU_spec (triple_predicate ` set gt) (triple_predicate ` set pred_sg),
          predicted_sg = PList pred_sg, predicted_entities = PList pred_entities\<rparr>"
    using assms by (rule evaluate_image_on_prediction)
  then show ?thesis .
qed

theorem evaluate_image_scores_witness:
  "evaluate_image (externals_with [(''ok'', sample_answer)] (Inr ''ok'')) new_evaluator
     ''000.png'' sample_ground_truth
   = Inr \<lparr>sg_iou = 1 / 2, entity_iou = 2 / 3, relation_iou = 1 / 2,
          predicted_sg = PList [PList [PStr ''cat'', PStr ''on'', PStr ''mat'']],
          predicted_entities = PList [PStr ''cat'', PStr ''dog'']\<rparr>"
proof -
  let ?ext = "externals_with [(''ok'', sample_answer)] (Inr ''ok'')"
  have ex: "extract_scene_graph_from_image ?ext new_evaluator ''000.png'' = Inr sample_answer"
    by (simp add: extract_scene_graph_from_image_def externals_with_def parse_response_def
        strip_code_fence_def py_strip_def py_isspace_def startswith_def sample_answer_def)
  have sg: "py_getkey sample_answer ''scene_graph''
      = Inr (PList [PList [PStr ''cat'', PStr ''on'', PStr ''mat'']])"
    and en: "py_getkey sample_answer ''entities'' = Inr (PList [PStr ''cat'', PStr ''dog''])"
    by (simp_all add: sample_answer_def)
  have shapes: "list_all is_triple sample_ground_truth"
    "list_all is_triple [PList [PStr ''cat'', PStr ''on'', PStr ''mat'']]"
    "list_all is_str [PStr ''cat'', PStr ''dog'']"
    by (simp_all add: sample_ground_truth_def)
  from evaluate_image_scores [OF ex sg en shapes] show ?thesis
    by (simp add: sample_ground_truth_def setIoU_spec_def card_insert_if)
qed

subsection \<open>Oracle failures\<close>

text \<open>
  When the model call raises, when the response is not valid JSON, and when the decoded
  response is an object without one of the two keys, the result is the empty prediction.
\<close>

lemma extract_when_generate_raises:
  assumes "make_prompt ext (object_list ev) (predicate_list ev) = Inr prompt"
    and "generate_content ext prompt image_path = Inl e"
  shows "extract_scene_graph_from_image ext ev image_path = Inr empty_prediction"
  using assms by (simp add: extract_scene_graph_from_image_def)

lemma extract_when_parse_raises:
  assumes "make_prompt ext (object_list ev) (predicate_list ev) = Inr prompt"
    and "generate_content ext prompt image_path = Inr text"
    and "parse_response ext text = Inl e"
  shows "extract_scene_graph_from_image ext ev image_path = Inr empty_prediction"
  using assms by (simp add: extract_scene_graph_from_image_def)

lemma parse_response_invalid_json:
  assumes "strip_code_fence text = Inr response_text"
    and "json_loads ext response_text = Inl e"
  shows "parse_response ext text = Inl e"
  using assms by (simp add: parse_response_def)

lemma parse_response_missing_key:
  assumes "strip_code_fence text = Inr response_text"
    and "json_loads ext response_text = Inr (PDict kvs)"
    and "''scene_graph'' \<notin> set (map fst kvs) \<or> ''entities'' \<notin> set (map fst kvs)"
  shows "parse_response ext text = Inl ValueError"
  using assms by (auto simp: parse_response_def)

lemma parse_response_no_container:
  assumes "strip_code_fence text = Inr response_text"
    and "json_loads ext response_text = Inr PNone \<or> (\<exists>n. json_loads ext response_text = Inr (PInt n))"
  shows "parse_response ext text = Inl TypeError"
  using assms by (auto simp: parse_response_def)

text \<open>The empty prediction is scored by the usual rule.\<close>

lemma evaluate_image_empty_prediction:
  assumes "extract_scene_graph_from_image ext ev image_path = Inr empty_prediction"
    and "list_all is_triple gt"
  shows "evaluate_image ext ev image_path gt =
     Inr \<lparr>sg_iou = setIoU_spec (set gt) {},
          entity_iou = setIoU_spec (triple_subject ` set gt \<union> triple_object ` set gt) {},
          relation_iou = setIoU_spec (triple_predicate ` set gt) {},
          predicted_sg = PList [], predicted_entities = PList []\<rparr>"
  using evaluate_image_on_prediction [OF assms(1), of "[]" "[]" gt] assms(2)
  by (simp add: empty_prediction_def)

text \<open>
  Claim C7 on the code. The check \<open>"scene_graph" not in result\<close> tests membership,
  not that the response is an object: the valid JSON array
  \<open>["scene_graph", "entities"]\<close> passes it and is returned as the prediction. Then
  \<open>extracted["scene_graph"]\<close> in \<open>evaluate_image\<close> raises \<open>TypeError\<close> outside any
  \<open>try\<close>, and \<open>evaluate_method\<close> stops at the first image instead of scoring an
  empty prediction and going on.
\<close>

theorem array_response_aborts_batch:
  "extract_scene_graph_from_image
     (externals_with [(scenario_line, scenario_data), (array_response, array_answer)]
        (Inr array_response))
     new_evaluator ''000.png'' = Inr array_answer
   \<and> evaluate_method
       (externals_with [(scenario_line, scenario_data), (array_response, array_answer)]
          (Inr array_response))
       new_evaluator [''000.png'', ''000_001.png''] [scenario_line] = Inl TypeError"
proof -
  let ?ext = "externals_with [(scenario_line, scenario_data), (array_response, array_answer)]
      (Inr array_response)"
  have fence: "strip_code_fence array_response = Inr array_response"
    by (simp add: strip_code_fence_def array_response_def py_strip_def py_isspace_def
        startswith_def)
  have differ: "array_response \<noteq> scenario_line"
    by (simp add: array_response_def scenario_line_def)
  then have loads: "json_loads ?ext array_response = Inr array_answer"
    by (simp add: externals_with_def)
  have parse: "parse_response ?ext array_response = Inr array_answer"
    by (simp add: parse_response_def fence loads) (simp add: array_answer_def)
  have extracted: "extract_scene_graph_from_image ?ext ev ''000.png'' = Inr array_answer" for ev
  proof -
    have "make_prompt ?ext (object_list ev) (predicate_list ev) = Inr []"
      and "generate_content ?ext [] ''000.png'' = Inr array_response"
      by (simp_all add: externals_with_def)
    then show ?thesis by (simp add: extract_scene_graph_from_image_def parse)
  qed
  have image: "evaluate_image ?ext ev ''000.png'' gt = Inl TypeError" for ev gt
    by (simp add: evaluate_image_def extracted) (simp add: array_answer_def)
  have dec: "json_loads ?ext scenario_line = Inr scenario_data"
    by (simp add: externals_with_def)
  have "wf_record scenario_data"
    by (simp add: wf_record_def scenario_data_def)
  with dec have "\<forall>line \<in> set [scenario_line]. \<not> blank line \<longrightarrow> wf_line ?ext line"
    by (simp add: wf_line_def)
  from load_lines_wf [OF this, of "[]" new_evaluator] obtain ev'
    where "load_lines ?ext [scenario_line] [] new_evaluator
      = Inr (spec_records ?ext [scenario_line], ev')"
    by auto
  moreover have "\<not> blank scenario_line"
    by (simp add: blank_def scenario_line_def whitespace_chars_def)
  then have "\<exists>entry. spec_records ?ext [scenario_line] = [entry]"
    by (simp add: spec_records_def)
  ultimately obtain entry
    where load: "load_metadata ?ext new_evaluator [scenario_line] = Inr ([entry], ev')"
    by (auto simp: load_metadata_def)
  have order: "sort [''000.png'', ''000_001.png''] = [''000.png'', ''000_001.png'']"
    by simp
  have base: "basename ''000.png'' = ''000.png''"
    by (simp add: basename_def rfind_def)
  have "globbed_name ''000.png''" by (simp add: globbed_name_def)
  then have "scene_idx_of ''000.png'' = scene_id_spec ''000.png''"
    by (rule scene_idx_of_spec)
  also have "\<dots> = Some 0"
    by (simp add: scene_id_spec_def strip_extension_def all_decimal_def decimal_digits_def
        decimal_number_def digit_number_def)
  finally have first: "scene_idx_of (basename ''000.png'') = Some 0"
    by (simp only: base)
  have "eval_images ?ext ev' [entry] [''000.png'', ''000_001.png''] initial_state = Inl TypeError"
    by (simp add: first image)
  with load order have "evaluate_method ?ext new_evaluator [''000.png'', ''000_001.png'']
      [scenario_line] = Inl TypeError"
    by (simp add: evaluate_method_def)
  with extracted show ?thesis by simp
qed

end
